theory Spec2Isabelle
  imports Main "HOL-Library.Sublist"
begin

section \<open>Python values: errors, strings, integers\<close>

text \<open>
  The embedded code is \<^verbatim>\<open>FASTAPreprocesser\<close> of
  \<^verbatim>\<open>cloudnative_datasets/genomics/sequence.py\<close> and the range computation of
  \<^verbatim>\<open>CloudObject.__local_preprocess\<close> of \<^verbatim>\<open>cloudnative_datasets/cobase.py\<close>.
  A Python exception is a value \<open>Inl e\<close> of the result type; a normal return is \<open>Inr v\<close>.
  Decoded text is a \<open>string\<close> (one \<open>char\<close> per position, so offsets are byte offsets
  of ASCII text).
\<close>

datatype py_error = IndexError | ValueError | ZeroDivisionError | Exception string

definition then_do :: "py_error + 'a \<Rightarrow> ('a \<Rightarrow> py_error + 'b) \<Rightarrow> py_error + 'b" where
  "then_do m f = (case m of Inl e \<Rightarrow> Inl e | Inr v \<Rightarrow> f v)"

abbreviation NL :: char where
  "NL \<equiv> CHR 0x0A"

text \<open>\<^verbatim>\<open>xs[k]\<close> for an index \<open>k \<ge> 0\<close>: IndexError out of range.\<close>

definition nth_err :: "'a list \<Rightarrow> nat \<Rightarrow> py_error + 'a" where
  "nth_err xs k = (if k < length xs then Inr (xs ! k) else Inl IndexError)"

text \<open>The position a Python index \<open>x\<close> (negative: counted from the end) denotes in a
  list of length \<open>n\<close>.\<close>

definition py_index :: "nat \<Rightarrow> int \<Rightarrow> py_error + nat" where
  "py_index n x =
     (if 0 \<le> x \<and> x < int n then Inr (nat x)
      else if - int n \<le> x \<and> x < 0 then Inr (nat (x + int n))
      else Inl IndexError)"

text \<open>\<^verbatim>\<open>xs[a:b]\<close>: a negative bound counts from the end, both bounds are clamped.\<close>

definition py_bound :: "nat \<Rightarrow> int \<Rightarrow> nat" where
  "py_bound n a = nat (max 0 (min (int n) (if a < 0 then a + int n else a)))"

definition py_slice :: "'a list \<Rightarrow> int \<Rightarrow> int \<Rightarrow> 'a list" where
  "py_slice xs a b = take (py_bound (length xs) b - py_bound (length xs) a) (drop (py_bound (length xs) a) xs)"

text \<open>\<^verbatim>\<open>range(a, b)\<close>.\<close>

definition py_range :: "int \<Rightarrow> int \<Rightarrow> int list" where
  "py_range a b = map (\<lambda>k. a + int k) [0..<nat (b - a)]"

text \<open>\<^verbatim>\<open>sub in s\<close> for strings.\<close>

fun contains :: "string \<Rightarrow> string \<Rightarrow> bool" where
  "contains sub [] = (sub = [])"
| "contains sub (c # cs) = (prefix sub (c # cs) \<or> contains sub cs)"

text \<open>\<^verbatim>\<open>s.split(d)\<close> for a one-character separator: never an empty list.\<close>

fun split_on :: "char \<Rightarrow> string \<Rightarrow> string list" where
  "split_on d [] = [[]]"
| "split_on d (c # cs) =
     (if c = d then [] # split_on d cs
      else (case split_on d cs of [] \<Rightarrow> [[c]] | f # fs \<Rightarrow> (c # f) # fs))"

text \<open>\<^verbatim>\<open>s.replace(old, new)\<close>: every non-overlapping occurrence, from the left. For an
  empty \<open>old\<close> Python puts \<open>new\<close> before every character and at the end.\<close>

function replace_all :: "string \<Rightarrow> string \<Rightarrow> string \<Rightarrow> string" where
  "replace_all old new s =
     (if old = [] then new @ concat (map (\<lambda>c. c # new) s)
      else case s of [] \<Rightarrow> []
      | c # cs \<Rightarrow>
          if prefix old s then new @ replace_all old new (drop (length old) s)
          else c # replace_all old new cs)"
  by pat_completeness auto
termination
  by (relation "measure (\<lambda>(old, new, s). length s)") auto

declare replace_all.simps [simp del]

text \<open>\<^verbatim>\<open>str(n)\<close> and \<^verbatim>\<open>f'{n}'\<close> for an integer: decimal digits, a minus sign when negative.\<close>

fun str_nat :: "nat \<Rightarrow> string" where
  "str_nat n =
     (if n < 10 then [''0123456789'' ! n]
      else str_nat (n div 10) @ [''0123456789'' ! (n mod 10)])"

declare str_nat.simps [simp del]

definition str_int :: "int \<Rightarrow> string" where
  "str_int i = (if i < 0 then CHR ''-'' # str_nat (nat (- i)) else str_nat (nat i))"

text \<open>
  \<^verbatim>\<open>int(s)\<close> for a string, base 10: surrounding whitespace is stripped, then an optional
  sign and decimal digits, single underscores allowed between digits; anything else is
  a ValueError.
\<close>

definition is_space :: "char \<Rightarrow> bool" where
  "is_space c = (c \<in> set [CHR '' '', CHR 0x09, CHR 0x0A, CHR 0x0B, CHR 0x0C, CHR 0x0D,
                           CHR 0x1C, CHR 0x1D, CHR 0x1E, CHR 0x1F])"

definition strip :: "string \<Rightarrow> string" where
  "strip s = rev (dropWhile is_space (rev (dropWhile is_space s)))"

fun index_of :: "'a \<Rightarrow> 'a list \<Rightarrow> nat option" where
  "index_of x [] = None"
| "index_of x (y # ys) = (if x = y then Some 0 else map_option Suc (index_of x ys))"

definition digit_val :: "char \<Rightarrow> nat option" where
  "digit_val c = index_of c ''0123456789''"

fun parse_digits :: "string \<Rightarrow> nat \<Rightarrow> nat option" where
  "parse_digits [] acc = Some acc"
| "parse_digits [c] acc = (case digit_val c of None \<Rightarrow> None | Some v \<Rightarrow> Some (acc * 10 + v))"
| "parse_digits (c # d # ds) acc =
     (if c = CHR ''_'' then
        (case digit_val d of None \<Rightarrow> None | Some v \<Rightarrow> parse_digits ds (acc * 10 + v))
      else (case digit_val c of None \<Rightarrow> None | Some v \<Rightarrow> parse_digits (d # ds) (acc * 10 + v)))"

definition py_int :: "string \<Rightarrow> py_error + int" where
  "py_int s =
     (let t = strip s;
          neg = (t \<noteq> [] \<and> hd t = CHR ''-'');
          u = (if t \<noteq> [] \<and> (hd t = CHR ''-'' \<or> hd t = CHR ''+'') then tl t else t)
      in case u of [] \<Rightarrow> Inl ValueError
         | d # ds \<Rightarrow>
             (case digit_val d of None \<Rightarrow> Inl ValueError
              | Some v \<Rightarrow>
                  (case parse_digits ds v of None \<Rightarrow> Inl ValueError
                   | Some n \<Rightarrow> Inr (if neg then - int n else int n))))"

section \<open>The three regular expressions of the scanner\<close>

text \<open>\<^verbatim>\<open>re.finditer(r"\n>", data)\<close>: the start of every newline followed by \<open>>\<close>.\<close>

fun ini_heads_from :: "nat \<Rightarrow> string \<Rightarrow> nat list" where
  "ini_heads_from p (c # d # cs) =
     (if c = NL \<and> d = CHR ''>'' then p # ini_heads_from (p + 2) cs
      else ini_heads_from (p + 1) (d # cs))"
| "ini_heads_from p cs = []"

text \<open>
  \<^verbatim>\<open>re.finditer(r">.+\n", data)\<close>: start and end of every match. The dot matches any
  character but the newline and \<open>.+\<close> is greedy, so a match starts at a \<open>>\<close> that is
  followed by at least one character other than a newline and whose line is ended by a
  newline inside the text; the search goes on after the match.
\<close>

function heads_from :: "nat \<Rightarrow> string \<Rightarrow> (nat \<times> nat) list" where
  "heads_from p [] = []"
| "heads_from p (c # cs) =
     (if c = CHR ''>'' \<and> takeWhile (\<lambda>x. x \<noteq> NL) cs \<noteq> [] \<and> dropWhile (\<lambda>x. x \<noteq> NL) cs \<noteq> []
      then (p, p + length (takeWhile (\<lambda>x. x \<noteq> NL) cs) + 2)
             # heads_from (p + length (takeWhile (\<lambda>x. x \<noteq> NL) cs) + 2) (tl (dropWhile (\<lambda>x. x \<noteq> NL) cs))
      else heads_from (p + 1) cs)"
  by pat_completeness auto
termination
proof (relation "measure (\<lambda>(p, s). length s)")
  fix p :: nat and c :: char and cs :: string
  have "length (dropWhile (\<lambda>x. x \<noteq> NL) cs) \<le> length cs"
    by (rule length_dropWhile_le)
  then have "length (tl (dropWhile (\<lambda>x. x \<noteq> NL) cs)) \<le> length cs"
    by simp
  then show "((p + length (takeWhile (\<lambda>x. x \<noteq> NL) cs) + 2, tl (dropWhile (\<lambda>x. x \<noteq> NL) cs)), p, c # cs)
               \<in> measure (\<lambda>(p, s). length s)"
    by simp
qed simp_all

text \<open>\<^verbatim>\<open>re.finditer('.*\n', s)\<close>: start and end of every line of \<open>s\<close> that a newline ends.\<close>

function lines_from :: "nat \<Rightarrow> string \<Rightarrow> (nat \<times> nat) list" where
  "lines_from p s =
     (if dropWhile (\<lambda>x. x \<noteq> NL) s = [] then []
      else (p, p + length (takeWhile (\<lambda>x. x \<noteq> NL) s) + 1)
             # lines_from (p + length (takeWhile (\<lambda>x. x \<noteq> NL) s) + 1) (tl (dropWhile (\<lambda>x. x \<noteq> NL) s)))"
  by pat_completeness auto
termination
proof (relation "measure (\<lambda>(p, s). length s)")
  fix p :: nat and s :: string
  assume ne: "dropWhile (\<lambda>x. x \<noteq> NL) s \<noteq> []"
  have "length (dropWhile (\<lambda>x. x \<noteq> NL) s) \<le> length s"
    by (rule length_dropWhile_le)
  with ne have "length (tl (dropWhile (\<lambda>x. x \<noteq> NL) s)) < length s"
    by (cases "dropWhile (\<lambda>x. x \<noteq> NL) s") auto
  then show "((p + length (takeWhile (\<lambda>x. x \<noteq> NL) s) + 1, tl (dropWhile (\<lambda>x. x \<noteq> NL) s)), p, s)
               \<in> measure (\<lambda>(p, s). length s)"
    by simp
qed simp

declare lines_from.simps [simp del]

section \<open>The chunk scanner: \<^verbatim>\<open>FASTAPreprocesser.map\<close>\<close>

text \<open>\<^verbatim>\<open>s[a:b]\<close> for positions that are never negative.\<close>

definition slice :: "'a list \<Rightarrow> nat \<Rightarrow> nat \<Rightarrow> 'a list" where
  "slice xs a b = take (b - a) (drop a xs)"

text \<open>
  \<^verbatim>\<open>__get_length\<close> (lines 25-31): the number of characters other than newlines between
  two absolute offsets is appended to the last entry of \<open>content\<close>; \<^verbatim>\<open>content[-1]\<close>
  of an empty list is an IndexError.
\<close>

definition get_length :: "int \<Rightarrow> string list \<Rightarrow> string \<Rightarrow> int \<Rightarrow> int \<Rightarrow> py_error + string list" where
  "get_length min_range content data start_base end_base =
     (let len_base = length (replace_all [NL] [] (py_slice data (start_base - min_range) (end_base - min_range)))
      in if content = [] then Inl IndexError
         else Inr (butlast content @ [last content @ '' '' @ str_nat len_base]))"

text \<open>
  Lines 61-74: the head-split marker, from the newline-ended lines \<open>match_text\<close> found
  before the first header, which starts at \<open>m_start\<close>. It carries one or two candidate
  offsets and lengths and the first line up to its first space.
\<close>

definition split_marker :: "int \<Rightarrow> string \<Rightarrow> nat \<Rightarrow> (nat \<times> nat) list \<Rightarrow> string" where
  "split_marker min_range data m_start match_text =
     (let m0 = hd match_text;
          text = hd (split_on (CHR '' '') (slice (take m_start data) (fst m0) (snd m0)));
          length_0 = length (replace_all [NL] [] (slice data (fst m0) m_start));
          offset_0 = int (fst m0) + min_range
      in if length match_text > 1 then
           (let offset_1 = int (fst (match_text ! 1)) + min_range;
                length_1 = length (replace_all [NL] [] (slice data (fst (match_text ! 1)) m_start))
            in ''>> <X> <Y> '' @ (str_int offset_0 @ ''-'' @ str_int offset_1) @ '' ''
                 @ (str_nat length_0 @ ''-'' @ str_nat length_1) @ '' ^'' @ text @ ''^'')
         else ''>> <X> <Y> '' @ str_int offset_0 @ '' '' @ str_nat length_0 @ '' ^'' @ text @ ''^'')"

text \<open>
  Lines 51-86: the body of the loop over \<open>heads\<close>, on the loop's variables
  \<open>(first_sequence, prev, content)\<close> and one match \<open>m\<close>.
\<close>

definition heads_body ::
  "int \<Rightarrow> int \<Rightarrow> string \<Rightarrow> bool \<times> int \<times> string list \<Rightarrow> nat \<times> nat
     \<Rightarrow> py_error + bool \<times> int \<times> string list" where
  "heads_body min_range worker_id data st m =
     (case st of (first_sequence, prev, content) \<Rightarrow>
        let split_here = (first_sequence \<and> worker_id > 0 \<and> min_range + int (fst m) - 1 > min_range);
            match_text = lines_from 0 (take (fst m) data);
            false_head = (split_here \<and> match_text = []);
            content1 = (if split_here \<and> match_text \<noteq> []
                        then content @ [split_marker min_range data (fst m) match_text] else content);
            start = (if false_head then - 1 else min_range + int (fst m));
            stop = (if false_head then - 1 else min_range + int (snd m))
        in if prev \<noteq> start then
             then_do (if prev \<noteq> - 1 then get_length min_range content1 data prev start else Inr content1)
               (\<lambda>content2. Inr (false_head, stop,
                  content2 @ [replace_all ''>'' [] (hd (split_on (CHR '' '') (slice data (fst m) (snd m))))
                                @ '' 1 '' @ str_int start @ '' '' @ str_int stop]))
           else Inr (false_head, stop, content1))"

fun heads_loop ::
  "int \<Rightarrow> int \<Rightarrow> string \<Rightarrow> bool \<times> int \<times> string list \<Rightarrow> (nat \<times> nat) list
     \<Rightarrow> py_error + bool \<times> int \<times> string list" where
  "heads_loop min_range worker_id data st [] = Inr st"
| "heads_loop min_range worker_id data st (m # ms) =
     then_do (heads_body min_range worker_id data st m) (\<lambda>st'. heads_loop min_range worker_id data st' ms)"

text \<open>
  Lines 88-101: after the loop. \<^verbatim>\<open>ini_heads[-1]\<close> and \<^verbatim>\<open>heads[-1]\<close> raise IndexError on an
  empty list. When the last newline-preceded \<open>>\<close> lies after the last matched header, the
  text from it on becomes a tail-split marker (\<open><->\<close> when it holds a space, \<open><_>\<close>
  otherwise; the \<open>>\<close> of the marker is the first character of that text).
\<close>

definition map_finish ::
  "int \<Rightarrow> int \<Rightarrow> string \<Rightarrow> nat list \<Rightarrow> (nat \<times> nat) list \<Rightarrow> int \<Rightarrow> string list \<Rightarrow> py_error + string list" where
  "map_finish min_range max_range data ini_heads heads prev content =
     (if ini_heads = [] \<or> heads = [] then Inl IndexError
      else if int (last ini_heads) + 1 > int (fst (last heads)) then
        (let last_seq_start = int (last ini_heads) + min_range + 1
         in then_do (if length heads \<noteq> 0 then get_length min_range content data prev last_seq_start
                     else Inr content)
              (\<lambda>content1.
                 let text = drop (py_bound (length data) (last_seq_start - min_range)) data
                 in Inr (content1 @ [(if contains '' '' text then ''<-'' else ''<_'')
                                       @ hd (split_on (CHR '' '') text) @ '' '' @ str_int last_seq_start])))
      else if length heads \<noteq> 0 then get_length min_range content data prev max_range
      else Inr content)"

text \<open>The Partial Record: the dictionary that \<^verbatim>\<open>map\<close> returns (lines 103-105).\<close>

record partial_record =
  min_range :: int
  max_range :: int
  sequences :: "string list"

text \<open>
  \<^verbatim>\<open>map(data_stream, worker_id, key, chunk_size, obj_size, partitions)\<close> (lines 34-105),
  on the decoded text \<open>data\<close> of the stream. \<^verbatim>\<open>data[0]\<close> is read only when \<open>ini_heads\<close>
  is empty, and is an IndexError on the empty text.
\<close>

definition map_FASTA :: "string \<Rightarrow> int \<Rightarrow> string \<Rightarrow> int \<Rightarrow> int \<Rightarrow> int \<Rightarrow> py_error + partial_record" where
  "map_FASTA data worker_id key chunk_size obj_size partitions =
     (let min_range' = worker_id * chunk_size;
          max_range' = (if worker_id = partitions - 1 then obj_size else (worker_id + 1) * chunk_size);
          ini_heads = ini_heads_from 0 data;
          heads = heads_from 0 data
      in if ini_heads = [] \<and> data = [] then Inl IndexError
         else if ini_heads \<noteq> [] \<or> hd data = CHR ''>'' then
           then_do (heads_loop min_range' worker_id data (True, - 1, []) heads)
             (\<lambda>st. case st of (first_sequence, prev, content) \<Rightarrow>
                then_do (map_finish min_range' max_range' data ini_heads heads prev content)
                  (\<lambda>content'. Inr \<lparr>min_range = min_range', max_range = max_range', sequences = content'\<rparr>))
         else Inr \<lparr>min_range = min_range', max_range = max_range', sequences = []\<rparr>)"

section \<open>The boundary stitcher: \<^verbatim>\<open>FASTAPreprocesser.reduce\<close>\<close>

text \<open>
  Lines 119-126 and 133-136: the values \<open>(name_id, length, offset_head, offset_base)\<close>,
  from the fields \<open>param\<close> of the head-split marker and the fields \<open>param_seq_prev\<close> of
  the last entry \<open>seq_prev\<close> of the record before. Every index out of range is an
  IndexError.
\<close>

definition resolve :: "string list \<Rightarrow> string \<Rightarrow> string list \<Rightarrow> py_error + string \<times> string \<times> string \<times> string" where
  "resolve param seq_prev param_seq_prev =
     (if contains ''<->'' seq_prev \<or> contains ''<_>'' seq_prev then
        then_do (if contains ''<->'' seq_prev
                 then then_do (nth_err param_seq_prev 0) (\<lambda>p0. Inr (replace_all ''<->'' [] p0))
                 else then_do (nth_err param_seq_prev 0) (\<lambda>p0.
                      then_do (nth_err param 5) (\<lambda>p5.
                        Inr (replace_all ''<_>'' [] p0 @ replace_all ''^'' [] p5))))
          (\<lambda>name_id.
             then_do (nth_err param 4) (\<lambda>p4.
             then_do (nth_err (split_on (CHR ''-'') p4) 1) (\<lambda>len.
             then_do (nth_err param_seq_prev 1) (\<lambda>offset_head.
             then_do (nth_err param 3) (\<lambda>p3.
             then_do (nth_err (split_on (CHR ''-'') p3) 1) (\<lambda>offset_base.
               Inr (name_id, len, offset_head, offset_base)))))))
      else
        then_do (nth_err param 4) (\<lambda>p4.
        then_do (nth_err (split_on (CHR ''-'') p4) 0) (\<lambda>len.
        then_do (nth_err param_seq_prev 0) (\<lambda>name_id.
        then_do (nth_err param_seq_prev 2) (\<lambda>offset_head.
        then_do (nth_err param 3) (\<lambda>p3.
        then_do (nth_err (split_on (CHR ''-'') p3) 0) (\<lambda>offset_base.
          Inr (name_id, len, offset_head, offset_base))))))))"

text \<open>
  Lines 140-142: in the last entry of a record, the text \<open>' split '\<close> becomes \<open>' split+1 '\<close>.
\<close>

definition bump_span :: "int \<Rightarrow> partial_record \<Rightarrow> partial_record" where
  "bump_span split r =
     r\<lparr>sequences := butlast (sequences r)
          @ [replace_all ('' '' @ str_int split @ '' '') ('' '' @ str_int (split + 1) @ '' '')
               (last (sequences r))]\<rparr>"

text \<open>
  Lines 139-142: the loop over \<open>x\<close> in \<^verbatim>\<open>range(i - split, i)\<close>, on the last entry of
  \<^verbatim>\<open>results[x]\<close>. A negative \<open>x\<close> counts records from the end of the list;
  \<^verbatim>\<open>results[x]['sequences'][-1]\<close> of an empty list is an IndexError.
\<close>

fun update_spans :: "int \<Rightarrow> int list \<Rightarrow> partial_record list \<Rightarrow> py_error + partial_record list" where
  "update_spans split [] results = Inr results"
| "update_spans split (x # xs) results =
     then_do (py_index (length results) x) (\<lambda>k.
       if sequences (results ! k) = [] then Inl IndexError
       else update_spans split xs (results[k := bump_span split (results ! k)]))"

text \<open>Lines 143-149: the six replacements that turn the head-split marker \<open>d0\<close> into an entry.\<close>

definition rewrite_marker ::
  "string list \<Rightarrow> string \<Rightarrow> string \<Rightarrow> string \<Rightarrow> string \<Rightarrow> int \<Rightarrow> string \<Rightarrow> py_error + string" where
  "rewrite_marker param name_id len offset_head offset_base split d0 =
     then_do (nth_err param 5) (\<lambda>p5.
     then_do (nth_err param 3) (\<lambda>p3.
     then_do (nth_err param 4) (\<lambda>p4.
       Inr (replace_all ''>> '' (name_id @ '' '')
             (replace_all '' <Y> '' ('' '' @ offset_head @ '' '')
               (replace_all '' <X> '' ('' '' @ str_int (split + 1) @ '' '')
                 (replace_all ('' '' @ p4) ('' '' @ len)
                   (replace_all ('' '' @ p3 @ '' '') ('' '' @ offset_base @ '' '')
                     (replace_all ('' '' @ p5) [] d0)))))))))"

text \<open>
  Lines 111-149: the body of the loop for the record at index \<open>i\<close>. The Python mutates the
  dictionaries and lists in place; here the list of records is passed and returned.
  For \<open>i = 0\<close>, \<^verbatim>\<open>results[i - 1]\<close> is the last record, and the condition fails on \<open>i > 0\<close>.
\<close>

definition reduce_body :: "partial_record list \<Rightarrow> nat \<Rightarrow> py_error + partial_record list" where
  "reduce_body results i =
     (let dictio = sequences (results ! i);
          j = (if i = 0 then length results - 1 else i - 1);
          seq_range_prev = sequences (results ! j)
      in if 0 < i \<and> seq_range_prev \<noteq> [] \<and> dictio \<noteq> [] \<and> contains ''>>'' (hd dictio) then
           (let param = split_on (CHR '' '') (hd dictio);
                seq_prev = last seq_range_prev;
                param_seq_prev = split_on (CHR '' '') seq_prev
            in then_do (resolve param seq_prev param_seq_prev) (\<lambda>(name_id, len, offset_head, offset_base).
               then_do
                 (if contains ''<->'' seq_prev \<or> contains ''<_>'' seq_prev then
                    then_do (py_int offset_head) (\<lambda>oh.
                      Inr (0, results[j := (results ! j)\<lparr>max_range := oh, sequences := butlast seq_range_prev\<rparr>,
                                      i := (results ! i)\<lparr>min_range := oh\<rparr>]))
                  else
                    then_do (nth_err param_seq_prev 1) (\<lambda>p1.
                    then_do (py_int p1) (\<lambda>split.
                    then_do (update_spans split (py_range (int i - split) (int i)) results) (\<lambda>results1.
                      Inr (split, results1)))))
                 (\<lambda>(split, results1).
                    then_do (rewrite_marker param name_id len offset_head offset_base split
                               (hd (sequences (results1 ! i))))
                      (\<lambda>d0. Inr (results1[i := (results1 ! i)\<lparr>sequences := d0 # tl (sequences (results1 ! i))\<rparr>])))))
         else Inr results)"

fun reduce_loop :: "nat list \<Rightarrow> partial_record list \<Rightarrow> py_error + partial_record list" where
  "reduce_loop [] results = Inr results"
| "reduce_loop (i # is) results = then_do (reduce_body results i) (reduce_loop is)"

text \<open>
  \<^verbatim>\<open>reduce(results)\<close> (lines 107-149). The Python function has no return statement: its
  result is the list \<open>results\<close> as it has mutated it, which is what this function returns.
\<close>

definition reduce :: "partial_record list \<Rightarrow> py_error + partial_record list" where
  "reduce results =
     (if length results > 1 then reduce_loop [0..<length results] results else Inr results)"

section \<open>The range partitioner of \<^verbatim>\<open>CloudObject.__local_preprocess\<close>\<close>

text \<open>
  \<^verbatim>\<open>math.ceil(a / b)\<close> and \<^verbatim>\<open>round(a / b)\<close> on integers, computed on the exact quotient
  (the Python goes through a float, which is exact for the sizes below \<open>2 ^ 53\<close>);
  \<^verbatim>\<open>round\<close> rounds a half to the even neighbour. Division by zero raises.
\<close>

definition py_ceil_div :: "int \<Rightarrow> int \<Rightarrow> py_error + int" where
  "py_ceil_div a b = (if b = 0 then Inl ZeroDivisionError else Inr (- ((- a) div b)))"

definition py_round_div :: "int \<Rightarrow> int \<Rightarrow> py_error + int" where
  "py_round_div a b =
     (if b = 0 then Inl ZeroDivisionError
      else if 2 * \<bar>a mod b\<bar> < \<bar>b\<bar> then Inr (a div b)
      else if \<bar>b\<bar> < 2 * \<bar>a mod b\<bar> then Inr (a div b + 1)
      else if even (a div b) then Inr (a div b) else Inr (a div b + 1))"

text \<open>
  Lines 200-208 of \<^verbatim>\<open>cobase.py\<close>: \<open>(iterations, chunk_size)\<close> from the size of the object
  and the two optional parameters (\<open>None\<close> when not supplied).
\<close>

definition partition_config :: "int \<Rightarrow> int option \<Rightarrow> int option \<Rightarrow> py_error + int \<times> int" where
  "partition_config obj_size chunk_size num_workers =
     (case (chunk_size, num_workers) of
        (Some c, Some n) \<Rightarrow> Inl (Exception ''Both chunk_size and num_workers is not allowed'')
      | (Some c, None) \<Rightarrow> then_do (py_ceil_div obj_size c) (\<lambda>iterations. Inr (iterations, c))
      | (None, Some n) \<Rightarrow> then_do (py_round_div obj_size n) (\<lambda>c. Inr (n, c))
      | (None, None) \<Rightarrow> Inl (Exception ''At least chunk_size or num_workers parameter is required''))"

text \<open>Lines 211-214: the range \<open>(r0, r1)\<close> of every iteration \<open>i\<close> of the loop.\<close>

definition byte_ranges :: "int \<Rightarrow> int \<Rightarrow> int \<Rightarrow> (int \<times> int) list" where
  "byte_ranges obj_size iterations chunk_size =
     map (\<lambda>i. (i * chunk_size,
                if i * chunk_size + chunk_size \<le> obj_size then i * chunk_size + chunk_size else obj_size))
       (py_range 0 iterations)"

definition local_preprocess_ranges :: "int \<Rightarrow> int option \<Rightarrow> int option \<Rightarrow> py_error + (int \<times> int) list" where
  "local_preprocess_ranges obj_size chunk_size num_workers =
     then_do (partition_config obj_size chunk_size num_workers)
       (\<lambda>(iterations, c). Inr (byte_ranges obj_size iterations c))"

section \<open>Chunks end to end\<close>

text \<open>
  An object cut into two chunks at byte \<open>c\<close>: \<^verbatim>\<open>map\<close> on the text of each chunk in worker
  order, with \<open>chunk_size = c\<close> and two partitions, then \<^verbatim>\<open>reduce\<close> on the two results.
  An exception of either \<^verbatim>\<open>map\<close> ends the run.
\<close>

definition map_reduce_two :: "string \<Rightarrow> string \<Rightarrow> nat \<Rightarrow> py_error + partial_record list" where
  "map_reduce_two obj key c =
     then_do (map_FASTA (take c obj) 0 key (int c) (int (length obj)) 2) (\<lambda>r0.
     then_do (map_FASTA (drop c obj) 1 key (int c) (int (length obj)) 2) (\<lambda>r1.
       reduce [r0, r1]))"

text \<open>
  An object cut into three chunks, of \<open>c\<close>, \<open>c\<close> and the remaining bytes, in the same way
  (three partitions).
\<close>

definition map_reduce_three :: "string \<Rightarrow> string \<Rightarrow> nat \<Rightarrow> py_error + partial_record list" where
  "map_reduce_three obj key c =
     then_do (map_FASTA (take c obj) 0 key (int c) (int (length obj)) 3) (\<lambda>r0.
     then_do (map_FASTA (take c (drop c obj)) 1 key (int c) (int (length obj)) 3) (\<lambda>r1.
     then_do (map_FASTA (drop (2 * c) obj) 2 key (int c) (int (length obj)) 3) (\<lambda>r2.
       reduce [r0, r1, r2])))"

text \<open>A field of decimal digits, as \<^verbatim>\<open>map\<close> writes the offsets and lengths of its entries.\<close>

definition digits :: "string \<Rightarrow> bool" where
  "digits s = (s \<noteq> [] \<and> set s \<subseteq> set ''0123456789'')"

section \<open>A well-formed object and its index\<close>

text \<open>
  What the claim on a single chunk speaks of, stated apart from the code: an object is a
  list of sequences, each the text of its header line (without the \<open>>\<close> and the newline)
  and its body; the object's text is the header lines and bodies in order. The entry
  expected for a sequence whose header line starts at byte \<open>p\<close> holds the id (the header line
  after \<open>>\<close>, up to its first space), the span count 1, the offsets of the start and the
  end of the header line and the number of characters of the body other than newlines.
\<close>

definition seq_text :: "string \<times> string \<Rightarrow> string" where
  "seq_text s = CHR ''>'' # fst s @ NL # snd s"

definition fasta_text :: "(string \<times> string) list \<Rightarrow> string" where
  "fasta_text seqs = concat (map seq_text seqs)"

definition open_entry :: "nat \<Rightarrow> string \<Rightarrow> string" where
  "open_entry p h =
     takeWhile (\<lambda>c. c \<noteq> CHR '' '') (h @ [NL]) @ '' 1 '' @ str_nat p @ '' '' @ str_nat (p + length h + 2)"

definition entry_of :: "nat \<Rightarrow> string \<times> string \<Rightarrow> string" where
  "entry_of p s = open_entry p (fst s) @ '' '' @ str_nat (length (filter (\<lambda>c. c \<noteq> NL) (snd s)))"

fun expected_entries :: "nat \<Rightarrow> (string \<times> string) list \<Rightarrow> string list" where
  "expected_entries p [] = []"
| "expected_entries p (s # rest) = entry_of p s # expected_entries (p + length (seq_text s)) rest"

text \<open>The start and end of every header line of the object's text.\<close>

fun head_spans :: "nat \<Rightarrow> (string \<times> string) list \<Rightarrow> (nat \<times> nat) list" where
  "head_spans p [] = []"
| "head_spans p (s # rest) = (p, p + length (fst s) + 2) # head_spans (p + length (seq_text s)) rest"

text \<open>
  A header line has at least one character after \<open>>\<close>, bodies have no \<open>>\<close>, and every body
  but the last ends with a newline (so that the next header starts a line).
\<close>

definition well_formed_seq :: "string \<times> string \<Rightarrow> bool" where
  "well_formed_seq s = (fst s \<noteq> [] \<and> NL \<notin> set (fst s) \<and> CHR ''>'' \<notin> set (fst s) \<and> CHR ''>'' \<notin> set (snd s))"

definition ends_line :: "string \<times> string \<Rightarrow> bool" where
  "ends_line s = (snd s \<noteq> [] \<and> last (snd s) = NL)"

definition well_formed :: "(string \<times> string) list \<Rightarrow> bool" where
  "well_formed seqs = (list_all well_formed_seq seqs \<and> list_all ends_line (butlast seqs))"

section \<open>Facts about the string operations\<close>

lemma split_on_nonempty: "split_on d s \<noteq> []"
  by (induction s) (auto split: list.splits)

lemma split_on_no_sep: "d \<notin> set u \<Longrightarrow> split_on d u = [u]"
  by (induction u) auto

lemma split_on_field: "d \<notin> set u \<Longrightarrow> split_on d (u @ d # s) = u # split_on d s"
  by (induction u) auto

lemma contains_prefix: "prefix sub s \<Longrightarrow> contains sub s"
  by (cases s) auto

lemma contains_append_left: "contains sub s \<Longrightarrow> contains sub (u @ s)"
  by (induction u) auto

lemma not_contains_hd: "sub \<noteq> [] \<Longrightarrow> hd sub \<notin> set s \<Longrightarrow> \<not> contains sub s"
  by (induction s) (auto simp: prefix_Cons)

lemma replace_all_Nil: "old \<noteq> [] \<Longrightarrow> replace_all old new [] = []"
  by (simp add: replace_all.simps)

lemma replace_all_skip:
  "old \<noteq> [] \<Longrightarrow> \<not> prefix old (c # s) \<Longrightarrow> replace_all old new (c # s) = c # replace_all old new s"
  by (subst replace_all.simps) simp

lemma replace_all_match:
  assumes "old \<noteq> []"
  shows "replace_all old new (old @ s) = new @ replace_all old new s"
proof -
  from assms obtain x xs where old: "old = x # xs"
    by (cases old) auto
  show ?thesis
    unfolding old by (subst replace_all.simps) simp
qed

lemma replace_all_match_end: "old \<noteq> [] \<Longrightarrow> replace_all old new old = new"
  using replace_all_match [of old new "[]"] by (simp add: replace_all_Nil)

lemma replace_all_skip_field:
  "old \<noteq> [] \<Longrightarrow> hd old \<notin> set u \<Longrightarrow> replace_all old new (u @ s) = u @ replace_all old new s"
proof (induction u)
  case Nil
  then show ?case by simp
next
  case (Cons c u)
  then have "\<not> prefix old (c # u @ s)"
    by (cases old) auto
  with Cons show ?case
    by (simp add: replace_all_skip)
qed

lemma replace_all_absent: "old \<noteq> [] \<Longrightarrow> hd old \<notin> set s \<Longrightarrow> replace_all old new s = s"
  using replace_all_skip_field [of old s new "[]"] by (simp add: replace_all_Nil)

lemma replace_all_empty_old: "replace_all [] [] s = s"
  by (subst replace_all.simps) (induction s, auto)

lemma replace_all_same: "replace_all old old s = s"
proof (cases "old = []")
  case True
  then show ?thesis by (simp add: replace_all_empty_old)
next
  case False
  show ?thesis
  proof (induction s rule: length_induct)
    case (1 s)
    show ?case
    proof (cases "prefix old s")
      case True
      then obtain r where s: "s = old @ r"
        by (auto simp: prefix_def)
      with False have "length r < length s" by simp
      with 1 have "replace_all old old r = r" by blast
      with False s show ?thesis
        by (simp add: replace_all_match)
    next
      case np: False
      show ?thesis
      proof (cases s)
        case Nil
        with False show ?thesis by (simp add: replace_all_Nil)
      next
        case (Cons c cs)
        with 1 have "replace_all old old cs = cs" by simp
        with False np Cons show ?thesis
          by (simp add: replace_all_skip)
      qed
    qed
  qed
qed

lemma replace_all_char_filter: "replace_all [c] [] s = filter (\<lambda>x. x \<noteq> c) s"
proof (induction s)
  case Nil
  then show ?case by (simp add: replace_all_Nil)
next
  case (Cons a s)
  show ?case
  proof (cases "a = c")
    case True
    with Cons replace_all_match [of "[c]" "[]" s] show ?thesis by simp
  next
    case False
    with Cons show ?thesis by (simp add: replace_all_skip)
  qed
qed

lemma not_prefix_field1: "c \<notin> set u \<Longrightarrow> c \<noteq> d \<Longrightarrow> \<not> prefix (c # p) (u @ d # s)"
  by (cases u) auto

lemma not_prefix_field2: "u \<noteq> [] \<Longrightarrow> c \<notin> set u \<Longrightarrow> \<not> prefix (u @ p) (c # s)"
  by (cases u) auto

lemma not_prefix_field3: "c \<notin> set u \<Longrightarrow> \<not> prefix (c # p) u"
  by (cases u) auto

lemma not_prefix_two_fields:
  "x \<notin> set b \<Longrightarrow> y \<notin> set a \<Longrightarrow> x \<noteq> y \<Longrightarrow> \<not> prefix (a @ x # r) (b @ y # r')"
proof (induction a arbitrary: b)
  case Nil
  then show ?case by (cases b) auto
next
  case (Cons c a)
  then show ?case by (cases b) auto
qed

lemma digitsD:
  "digits s \<Longrightarrow> s \<noteq> [] \<and> CHR '' '' \<notin> set s \<and> CHR ''-'' \<notin> set s \<and> CHR ''<'' \<notin> set s
     \<and> CHR ''>'' \<notin> set s \<and> CHR ''^'' \<notin> set s"
  by (auto simp: digits_def)

lemma replace_all_match_field:
  "replace_all (c # u @ [d]) new (c # u @ d # s) = new @ replace_all (c # u @ [d]) new s"
  using replace_all_match [of "c # u @ [d]" new s] by simp

lemma drop_fragment:
  assumes "CHR '' '' \<notin> set frag"
    and "CHR '' '' \<notin> set p3" "CHR ''^'' \<notin> set p3"
    and "CHR '' '' \<notin> set p4" "CHR ''^'' \<notin> set p4"
  shows "replace_all ('' '' @ (''^'' @ frag @ ''^'')) [] (''>> <X> <Y> '' @ p3 @ '' '' @ p4 @ '' ^'' @ frag @ ''^'')
           = ''>> <X> <Y> '' @ p3 @ '' '' @ p4"
  using assms
  by (simp add: replace_all_skip replace_all_skip_field replace_all_match_end not_prefix_field1)

lemma select_offset:
  assumes "p3 \<noteq> []" "CHR '' '' \<notin> set p3" "CHR ''<'' \<notin> set p3"
    and "CHR '' '' \<notin> set p4"
  shows "replace_all ('' '' @ p3 @ '' '') ('' '' @ ob @ '' '') (''>> <X> <Y> '' @ p3 @ '' '' @ p4)
           = ''>> <X> <Y> '' @ ob @ '' '' @ p4"
  using assms
  by (simp add: replace_all_skip replace_all_match_field replace_all_absent not_prefix_field2)

lemma select_length:
  assumes "l0 \<noteq> []" "CHR '' '' \<notin> set l0" "CHR ''<'' \<notin> set l0"
    and "CHR '' '' \<notin> set ob" "CHR ''-'' \<notin> set ob"
  shows "replace_all ('' '' @ (l0 @ ''-'' @ l1)) ('' '' @ len) (''>> <X> <Y> '' @ ob @ '' '' @ l0 @ ''-'' @ l1)
           = ''>> <X> <Y> '' @ ob @ '' '' @ len"
  using assms
  by (simp add: replace_all_skip replace_all_skip_field replace_all_match_end not_prefix_field2 not_prefix_two_fields)

lemma put_span:
  assumes "CHR '' '' \<notin> set ob" "CHR ''<'' \<notin> set ob"
    and "CHR '' '' \<notin> set len" "CHR ''<'' \<notin> set len"
  shows "replace_all '' <X> '' ('' '' @ k @ '' '') (''>> <X> <Y> '' @ ob @ '' '' @ len)
           = ''>> '' @ k @ '' <Y> '' @ ob @ '' '' @ len"
  using assms replace_all_match [of "'' <X> ''" "'' '' @ k @ '' ''" "''<Y> '' @ ob @ '' '' @ len"]
  by (simp add: replace_all_skip replace_all_skip_field replace_all_absent not_prefix_field1 not_prefix_field3)

lemma put_header_offset:
  assumes "CHR '' '' \<notin> set ob" "CHR ''<'' \<notin> set ob"
    and "CHR '' '' \<notin> set len" "CHR ''<'' \<notin> set len"
    and "CHR '' '' \<notin> set k" "CHR ''<'' \<notin> set k"
  shows "replace_all '' <Y> '' ('' '' @ oh @ '' '') (''>> '' @ k @ '' <Y> '' @ ob @ '' '' @ len)
           = ''>> '' @ k @ '' '' @ oh @ '' '' @ ob @ '' '' @ len"
  using assms replace_all_match [of "'' <Y> ''" "'' '' @ oh @ '' ''" "ob @ '' '' @ len"]
  by (simp add: replace_all_skip replace_all_skip_field replace_all_absent not_prefix_field1 not_prefix_field3)

lemma put_name:
  assumes "CHR ''>'' \<notin> set k" "CHR ''>'' \<notin> set oh" "CHR ''>'' \<notin> set ob" "CHR ''>'' \<notin> set len"
  shows "replace_all ''>> '' (name_id @ '' '') (''>> '' @ k @ '' '' @ oh @ '' '' @ ob @ '' '' @ len)
           = name_id @ '' '' @ k @ '' '' @ oh @ '' '' @ ob @ '' '' @ len"
  using assms replace_all_match [of "''>> ''" "name_id @ '' ''" "k @ '' '' @ oh @ '' '' @ ob @ '' '' @ len"]
  by (simp add: replace_all_absent)

section \<open>Facts about the stitcher\<close>

lemma str_nat_chars: "set (str_nat n) \<subseteq> set ''0123456789''"
proof (induction n rule: str_nat.induct)
  case (1 n)
  have d: "''0123456789'' ! k \<in> set ''0123456789''" if "k < 10" for k
    using that nth_mem [of k "''0123456789''"] by simp
  show ?case
  proof (cases "n < 10")
    case True
    with d [of n] show ?thesis
      by (subst str_nat.simps) simp
  next
    case False
    with 1 d [of "n mod 10"] show ?thesis
      by (subst str_nat.simps) simp
  qed
qed

lemma str_int_chars: "c \<notin> set ''-0123456789'' \<Longrightarrow> c \<notin> set (str_int i)"
  using str_nat_chars by (auto simp: str_int_def)

lemma marker_fields:
  assumes "CHR '' '' \<notin> set p3" "CHR '' '' \<notin> set p4" "CHR '' '' \<notin> set frag"
  shows "split_on (CHR '' '') (''>> <X> <Y> '' @ p3 @ '' '' @ p4 @ '' ^'' @ frag @ ''^'')
           = [''>>'', ''<X>'', ''<Y>'', p3, p4, ''^'' @ frag @ ''^'']"
proof -
  have "split_on (CHR '' '') (''^'' @ frag @ ''^'') = [''^'' @ frag @ ''^'']"
    using assms by (intro split_on_no_sep) simp
  with assms show ?thesis
    by (simp add: split_on_field)
qed

lemma rewrite_two:
  assumes "digits o0" "digits o1" "digits l0" "digits l1" "digits oh" "digits ob" "digits len"
    and "CHR '' '' \<notin> set frag"
  shows "rewrite_marker [''>>'', ''<X>'', ''<Y>'', o0 @ ''-'' @ o1, l0 @ ''-'' @ l1, ''^'' @ frag @ ''^'']
           name_id len oh ob split
           (''>> <X> <Y> '' @ (o0 @ ''-'' @ o1) @ '' '' @ (l0 @ ''-'' @ l1) @ '' ^'' @ frag @ ''^'')
         = Inr (name_id @ '' '' @ str_int (split + 1) @ '' '' @ oh @ '' '' @ ob @ '' '' @ len)"
proof -
  note d = assms(1-7) [THEN digitsD]
  let ?p3 = "o0 @ ''-'' @ o1" and ?p4 = "l0 @ ''-'' @ l1"
  have 1: "replace_all ('' '' @ (''^'' @ frag @ ''^'')) [] (''>> <X> <Y> '' @ ?p3 @ '' '' @ ?p4 @ '' ^'' @ frag @ ''^'')
             = ''>> <X> <Y> '' @ ?p3 @ '' '' @ ?p4"
    using d assms(8) by (intro drop_fragment) simp_all
  have 2: "replace_all ('' '' @ ?p3 @ '' '') ('' '' @ ob @ '' '') (''>> <X> <Y> '' @ ?p3 @ '' '' @ ?p4)
             = ''>> <X> <Y> '' @ ob @ '' '' @ ?p4"
    using d by (intro select_offset) simp_all
  have 3: "replace_all ('' '' @ ?p4) ('' '' @ len) (''>> <X> <Y> '' @ ob @ '' '' @ l0 @ ''-'' @ l1)
             = ''>> <X> <Y> '' @ ob @ '' '' @ len"
    using d by (intro select_length) simp_all
  have k: "CHR '' '' \<notin> set (str_int (split + 1))" "CHR ''<'' \<notin> set (str_int (split + 1))"
    "CHR ''>'' \<notin> set (str_int (split + 1))"
    by (simp_all add: str_int_chars)
  have 4: "replace_all '' <X> '' ('' '' @ str_int (split + 1) @ '' '') (''>> <X> <Y> '' @ ob @ '' '' @ len)
             = ''>> '' @ str_int (split + 1) @ '' <Y> '' @ ob @ '' '' @ len"
    using d by (intro put_span) simp_all
  have 5: "replace_all '' <Y> '' ('' '' @ oh @ '' '') (''>> '' @ str_int (split + 1) @ '' <Y> '' @ ob @ '' '' @ len)
             = ''>> '' @ str_int (split + 1) @ '' '' @ oh @ '' '' @ ob @ '' '' @ len"
    using d k by (intro put_header_offset) simp_all
  have 6: "replace_all ''>> '' (name_id @ '' '') (''>> '' @ str_int (split + 1) @ '' '' @ oh @ '' '' @ ob @ '' '' @ len)
             = name_id @ '' '' @ str_int (split + 1) @ '' '' @ oh @ '' '' @ ob @ '' '' @ len"
    using d k by (intro put_name) simp_all
  show ?thesis
    unfolding rewrite_marker_def nth_err_def then_do_def
    using 1 2 3 4 5 6 by simp
qed

lemma rewrite_one:
  assumes "digits o0" "digits l0" "digits oh"
    and "CHR '' '' \<notin> set frag"
  shows "rewrite_marker [''>>'', ''<X>'', ''<Y>'', o0, l0, ''^'' @ frag @ ''^'']
           name_id l0 oh o0 split
           (''>> <X> <Y> '' @ o0 @ '' '' @ l0 @ '' ^'' @ frag @ ''^'')
         = Inr (name_id @ '' '' @ str_int (split + 1) @ '' '' @ oh @ '' '' @ o0 @ '' '' @ l0)"
proof -
  note d = assms(1-3) [THEN digitsD]
  have 1: "replace_all ('' '' @ (''^'' @ frag @ ''^'')) [] (''>> <X> <Y> '' @ o0 @ '' '' @ l0 @ '' ^'' @ frag @ ''^'')
             = ''>> <X> <Y> '' @ o0 @ '' '' @ l0"
    using d assms(4) by (intro drop_fragment) simp_all
  have k: "CHR '' '' \<notin> set (str_int (split + 1))" "CHR ''<'' \<notin> set (str_int (split + 1))"
    "CHR ''>'' \<notin> set (str_int (split + 1))"
    by (simp_all add: str_int_chars)
  have 4: "replace_all '' <X> '' ('' '' @ str_int (split + 1) @ '' '') (''>> <X> <Y> '' @ o0 @ '' '' @ l0)
             = ''>> '' @ str_int (split + 1) @ '' <Y> '' @ o0 @ '' '' @ l0"
    using d by (intro put_span) simp_all
  have 5: "replace_all '' <Y> '' ('' '' @ oh @ '' '') (''>> '' @ str_int (split + 1) @ '' <Y> '' @ o0 @ '' '' @ l0)
             = ''>> '' @ str_int (split + 1) @ '' '' @ oh @ '' '' @ o0 @ '' '' @ l0"
    using d k by (intro put_header_offset) simp_all
  have 6: "replace_all ''>> '' (name_id @ '' '') (''>> '' @ str_int (split + 1) @ '' '' @ oh @ '' '' @ o0 @ '' '' @ l0)
             = name_id @ '' '' @ str_int (split + 1) @ '' '' @ oh @ '' '' @ o0 @ '' '' @ l0"
    using d k by (intro put_name) simp_all
  show ?thesis
    unfolding rewrite_marker_def nth_err_def then_do_def
    using 1 4 5 6 by (simp add: replace_all_same)
qed

lemma tail_fields:
  "CHR '' '' \<notin> set a \<Longrightarrow> CHR '' '' \<notin> set b \<Longrightarrow> split_on (CHR '' '') (a @ '' '' @ b) = [a, b]"
  by (simp add: split_on_field split_on_no_sep)

lemma resolve_tail:
  assumes tag: "tag = ''<->'' \<or> tag = ''<_>''"
    and name: "CHR ''<'' \<notin> set name"
    and "digits o0" "digits o1" "digits l0" "digits l1" "digits oh"
  shows "resolve [''>>'', ''<X>'', ''<Y>'', o0 @ ''-'' @ o1, l0 @ ''-'' @ l1, ''^'' @ frag @ ''^'']
           (tag @ name @ '' '' @ oh) [tag @ name, oh]
         = Inr (if tag = ''<->'' then name else name @ filter (\<lambda>c. c \<noteq> CHR ''^'') frag, l1, oh, o1)"
proof -
  note d = assms(3-7) [THEN digitsD]
  have rest: "CHR ''<'' \<notin> set (name @ '' '' @ oh)"
    using name d by simp
  have sl: "split_on (CHR ''-'') (l0 @ ''-'' @ l1) = [l0, l1]"
    and so: "split_on (CHR ''-'') (o0 @ ''-'' @ o1) = [o0, o1]"
    using d by (simp_all add: split_on_field split_on_no_sep)
  from tag show ?thesis
  proof
    assume t: "tag = ''<->''"
    have c: "contains ''<->'' (''<->'' @ name @ '' '' @ oh)"
      by (rule contains_prefix) simp
    have n: "replace_all ''<->'' [] (''<->'' @ name) = name"
      using name replace_all_match [of "''<->''" "[]" name] by (simp add: replace_all_absent)
    show ?thesis
      unfolding t resolve_def using c n sl so
      by (simp add: then_do_def nth_err_def)
  next
    assume t: "tag = ''<_>''"
    have "\<not> contains ''<->'' (name @ '' '' @ oh)"
      using rest by (intro not_contains_hd) simp_all
    then have nc: "\<not> contains ''<->'' (''<_>'' @ name @ '' '' @ oh)"
      by simp
    have c: "contains ''<_>'' (''<_>'' @ name @ '' '' @ oh)"
      by (rule contains_prefix) simp
    have n: "replace_all ''<_>'' [] (''<_>'' @ name) = name"
      using name replace_all_match [of "''<_>''" "[]" name] by (simp add: replace_all_absent)
    show ?thesis
      unfolding t resolve_def using c nc n sl so
      by (simp add: then_do_def nth_err_def replace_all_char_filter)
  qed
qed

lemma tail_marker_test:
  assumes tag: "tag = ''<->'' \<or> tag = ''<_>''"
  shows "contains ''<->'' (tag @ r) \<or> contains ''<_>'' (tag @ r)"
  using tag by (auto intro: contains_prefix)

lemma update_spans_upt:
  assumes "b \<le> length rs" and "\<forall>x. a \<le> x \<and> x < b \<longrightarrow> sequences (rs ! x) \<noteq> []"
  shows "update_spans k (map int [a..<b]) rs
           = Inr (map (\<lambda>x. if a \<le> x \<and> x < b then bump_span k (rs ! x) else rs ! x) [0..<length rs])"
  using assms
proof (induction "b - a" arbitrary: a rs)
  case 0
  then have ba: "b \<le> a" by simp
  have m: "map (\<lambda>x. if a \<le> x \<and> x < b then bump_span k (rs ! x) else rs ! x) [0..<length rs] = rs"
    using ba by (intro nth_equalityI) auto
  from ba have "[a..<b] = []" by simp
  then show ?case by (simp only: m list.map update_spans.simps)
next
  case (Suc n)
  then have ab: "a < b" and up: "[a..<b] = a # [Suc a..<b]"
    by (simp_all add: upt_conv_Cons)
  let ?rs = "rs[a := bump_span k (rs ! a)]"
  have ne: "sequences (rs ! a) \<noteq> []"
    using Suc.prems ab by simp
  have idx: "py_index (length rs) (int a) = Inr a"
    using Suc.prems ab by (simp add: py_index_def)
  have "update_spans k (map int [Suc a..<b]) ?rs
          = Inr (map (\<lambda>x. if Suc a \<le> x \<and> x < b then bump_span k (?rs ! x) else ?rs ! x) [0..<length ?rs])"
  proof (rule Suc.hyps(1))
    show "n = b - Suc a" using Suc.hyps(2) by simp
    show "b \<le> length ?rs" using Suc.prems by simp
    show "\<forall>x. Suc a \<le> x \<and> x < b \<longrightarrow> sequences (?rs ! x) \<noteq> []"
      using Suc.prems by auto
  qed
  moreover have "map (\<lambda>x. if Suc a \<le> x \<and> x < b then bump_span k (?rs ! x) else ?rs ! x) [0..<length ?rs]
                   = map (\<lambda>x. if a \<le> x \<and> x < b then bump_span k (rs ! x) else rs ! x) [0..<length rs]"
    using ab Suc.prems by (intro nth_equalityI) (auto simp: nth_list_update)
  ultimately show ?case
    using idx ne unfolding up
    by (simp add: then_do_def)
qed

lemma py_range_upt:
  assumes "0 \<le> k" and "k \<le> int i"
  shows "py_range (int i - k) (int i) = map int [i - nat k..<i]"
proof -
  have "map int [i - nat k..<i] = map int (map (\<lambda>j. j + (i - nat k)) [0..<nat k])"
    using assms map_add_upt [of "i - nat k" "nat k"] by simp
  also have "\<dots> = map (\<lambda>j. int i - k + int j) [0..<nat k]"
    using assms by (simp add: o_def)
  finally show ?thesis
    using assms by (simp add: py_range_def)
qed

lemma resolve_regular:
  assumes "\<not> contains ''<->'' e" and "\<not> contains ''<_>'' e"
    and "split_on (CHR ''-'') p3 = o0 # f3" and "split_on (CHR ''-'') p4 = l0 # f4"
  shows "resolve [a, b, c, p3, p4, t] e (name # sp # oh # fs) = Inr (name, l0, oh, o0)"
  using assms by (simp add: resolve_def then_do_def nth_err_def)

lemma entry_fields:
  assumes "CHR '' '' \<notin> set name" "CHR '' '' \<notin> set sp" "CHR '' '' \<notin> set oh"
    and "rest = [] \<or> hd rest = CHR '' ''"
  shows "\<exists>fs. split_on (CHR '' '') (name @ '' '' @ sp @ '' '' @ oh @ rest) = name # sp # oh # fs"
proof (cases rest)
  case Nil
  with assms show ?thesis
    by (simp add: split_on_field split_on_no_sep)
next
  case (Cons c r)
  with assms have "rest = CHR '' '' # r" by simp
  with assms show ?thesis
    by (simp add: split_on_field)
qed

lemma body_split_step:
  assumes i: "0 < i" "i < length rs"
    and cur: "sequences (rs ! i) = (''>> <X> <Y> '' @ p3 @ '' '' @ p4 @ '' ^'' @ frag @ ''^'') # others"
    and shape: "(p3 = o0 \<and> p4 = l0) \<or> (p3 = o0 @ ''-'' @ o1 \<and> p4 = l0 @ ''-'' @ l1 \<and> digits o1 \<and> digits l1)"
    and prev: "sequences (rs ! (i - 1)) = pre @ [name @ '' '' @ sp @ '' '' @ oh @ rest]"
    and rest: "rest = [] \<or> hd rest = CHR '' ''"
    and nt: "\<not> contains ''<->'' (name @ '' '' @ sp @ '' '' @ oh @ rest)"
            "\<not> contains ''<_>'' (name @ '' '' @ sp @ '' '' @ oh @ rest)"
    and fields: "CHR '' '' \<notin> set name" "CHR '' '' \<notin> set sp"
    and dg: "digits oh" "digits o0" "digits l0"
    and tx: "CHR '' '' \<notin> set frag"
    and sp: "py_int sp = Inr k" "0 \<le> k" "k \<le> int i"
    and ne: "\<forall>x. i - nat k \<le> x \<and> x < i \<longrightarrow> sequences (rs ! x) \<noteq> []"
  shows "reduce_body rs i =
           Inr ((map (\<lambda>x. if i - nat k \<le> x \<and> x < i then bump_span k (rs ! x) else rs ! x) [0..<length rs])
                  [i := (rs ! i)\<lparr>sequences :=
                     (name @ '' '' @ str_int (k + 1) @ '' '' @ oh @ '' '' @ o0 @ '' '' @ l0) # others\<rparr>])"
proof -
  note d = dg [THEN digitsD]
  let ?m = "''>> <X> <Y> '' @ p3 @ '' '' @ p4 @ '' ^'' @ frag @ ''^''"
  let ?e = "name @ '' '' @ sp @ '' '' @ oh @ rest"
  let ?param = "[''>>'', ''<X>'', ''<Y>'', p3, p4, ''^'' @ frag @ ''^'']"
  let ?rs1 = "map (\<lambda>x. if i - nat k \<le> x \<and> x < i then bump_span k (rs ! x) else rs ! x) [0..<length rs]"
  let ?new = "name @ '' '' @ str_int (k + 1) @ '' '' @ oh @ '' '' @ o0 @ '' '' @ l0"
  have p34: "CHR '' '' \<notin> set p3" "CHR '' '' \<notin> set p4"
    using shape d by (auto dest: digitsD)
  have param: "split_on (CHR '' '') ?m = ?param"
    using p34 tx by (rule marker_fields)
  obtain fs where psp: "split_on (CHR '' '') ?e = name # sp # oh # fs"
    using entry_fields [OF fields d(1) [THEN conjunct2, THEN conjunct1] rest] by blast
  have guard: "contains ''>>'' ?m"
    by (rule contains_prefix) simp
  obtain f3 f4 where s34: "split_on (CHR ''-'') p3 = o0 # f3" "split_on (CHR ''-'') p4 = l0 # f4"
    using shape d by (auto simp: split_on_field split_on_no_sep dest: digitsD)
  have res: "resolve ?param ?e (name # sp # oh # fs) = Inr (name, l0, oh, o0)"
    using nt s34 by (rule resolve_regular)
  have upd: "update_spans k (py_range (int i - k) (int i)) rs = Inr ?rs1"
    unfolding py_range_upt [OF sp(2,3)] using i(2) ne by (intro update_spans_upt) simp_all
  have rs1i: "?rs1 ! i = rs ! i" and len1: "length ?rs1 = length rs"
    using i by simp_all
  have rw: "rewrite_marker ?param name l0 oh o0 k ?m = Inr ?new"
    using shape
  proof
    assume "p3 = o0 \<and> p4 = l0"
    then show ?thesis
      using rewrite_one [OF dg(2,3,1) tx, of name k] by simp
  next
    assume a: "p3 = o0 @ ''-'' @ o1 \<and> p4 = l0 @ ''-'' @ l1 \<and> digits o1 \<and> digits l1"
    then have "digits o1" "digits l1" by simp_all
    from rewrite_two [OF dg(2) this(1) dg(3) this(2) dg(1) dg(2) dg(3) tx, of name k] a
    show ?thesis by simp
  qed
  from i have j: "(if i = 0 then length rs - 1 else i - 1) = i - 1"
    by simp
  show ?thesis
    unfolding reduce_body_def Let_def j
    using i cur prev guard nt param psp res rw sp(1) upd rs1i
    by (simp add: then_do_def nth_err_def del: map_eq_conv upt.simps)
qed

lemma span_one_to_two:
  assumes "CHR '' '' \<notin> set name" "digits oh" "digits ob" "digits ln" "ob \<noteq> ''1''"
  shows "replace_all '' 1 '' '' 2 '' (name @ '' 1 '' @ oh @ '' '' @ ob @ '' '' @ ln)
           = name @ '' 2 '' @ oh @ '' '' @ ob @ '' '' @ ln"
proof -
  note d = assms(2-4) [THEN digitsD]
  have ob: "\<not> prefix ''1 '' (ob @ '' '' @ ln)"
    using d assms(5) by (cases ob; cases "tl ob") auto
  have ln: "\<not> prefix ''1 '' ln"
    using d set_mono_prefix [of "''1 ''" ln] by auto
  have "replace_all '' 1 '' '' 2 '' (oh @ '' '' @ ob @ '' '' @ ln) = oh @ '' '' @ ob @ '' '' @ ln"
    using d ob ln
    by (simp add: replace_all_skip_field replace_all_skip replace_all_absent)
  with assms(1) replace_all_match [of "'' 1 ''" "'' 2 ''" "oh @ '' '' @ ob @ '' '' @ ln"]
  show ?thesis
    by (simp add: replace_all_skip_field)
qed

lemma reduce_body_first: "reduce_body rs 0 = Inr rs"
  by (simp add: reduce_body_def Let_def)

lemma update_spans_length:
  "update_spans k xs rs = Inr rs' \<Longrightarrow> length rs' = length rs"
proof (induction xs arbitrary: rs)
  case Nil
  then show ?case by simp
next
  case (Cons x xs)
  then show ?case
    by (auto simp: then_do_def split: sum.splits if_splits)
qed

lemma reduce_body_length:
  "reduce_body rs i = Inr rs' \<Longrightarrow> length rs' = length rs"
  by (auto simp: reduce_body_def Let_def then_do_def split: if_splits sum.splits prod.splits
      dest: update_spans_length)

lemma reduce_loop_length:
  "reduce_loop js rs = Inr rs' \<Longrightarrow> length rs' = length rs"
proof (induction js arbitrary: rs)
  case Nil
  then show ?case by simp
next
  case (Cons j js)
  then show ?case
    by (auto simp: then_do_def split: sum.splits dest: reduce_body_length)
qed

lemma reduce_body_skip:
  assumes "i = 0 \<or> sequences (rs ! (i - 1)) = [] \<or> sequences (rs ! i) = []
             \<or> \<not> contains ''>>'' (hd (sequences (rs ! i)))"
  shows "reduce_body rs i = Inr rs"
  using assms by (auto simp: reduce_body_def Let_def)

lemma reduce_loop_skip:
  assumes "\<forall>i \<in> set js. i = 0 \<or> sequences (rs ! (i - 1)) = [] \<or> sequences (rs ! i) = []
             \<or> \<not> contains ''>>'' (hd (sequences (rs ! i)))"
  shows "reduce_loop js rs = Inr rs"
  using assms
proof (induction js)
  case Nil
  then show ?case by simp
next
  case (Cons j js)
  then have "reduce_body rs j = Inr rs"
    by (intro reduce_body_skip) simp
  with Cons show ?case
    by (simp add: then_do_def)
qed

lemmas witness_defs = digits_def py_int_def strip_def is_space_def digit_val_def

section \<open>Facts about the partitioner\<close>

lemma ceil_div_bounds:
  fixes s c :: int
  assumes "0 < s" "0 < c"
  defines "q \<equiv> - ((- s) div c)"
  shows "0 < q" and "(q - 1) * c < s" and "s \<le> q * c"
proof -
  have e: "- s = c * ((- s) div c) + (- s) mod c"
    by simp
  have r: "0 \<le> (- s) mod c" "(- s) mod c < c"
    using assms(2) by simp_all
  have "q * c = - (c * ((- s) div c))"
    unfolding q_def by simp
  with e have qc: "q * c = s + (- s) mod c"
    by linarith
  with r(1) show "s \<le> q * c" by linarith
  from qc r(2) show "(q - 1) * c < s" by (simp add: algebra_simps)
  from qc r(1) assms(1) have "0 < q * c" by linarith
  with assms(2) show "0 < q"
    by (simp add: zero_less_mult_iff)
qed

lemma chunk_size_ranges_cover:
  assumes "0 < obj_size" and "0 < c"
  shows "\<exists>rs. local_preprocess_ranges obj_size (Some c) None = Inr rs \<and> rs \<noteq> []
           \<and> fst (hd rs) = 0 \<and> snd (last rs) = obj_size
           \<and> (\<forall>j. Suc j < length rs \<longrightarrow> snd (rs ! j) = fst (rs ! Suc j))
           \<and> (\<forall>j. j < length rs \<longrightarrow> fst (rs ! j) < snd (rs ! j))"
proof -
  define q where "q = - ((- obj_size) div c)"
  define n where "n = nat q"
  note b = ceil_div_bounds [OF assms, folded q_def]
  let ?f = "\<lambda>i. (i * c, if i * c + c \<le> obj_size then i * c + c else obj_size)"
  let ?rs = "map (\<lambda>k. ?f (int k)) [0..<n]"
  have n: "0 < n" "int n = q"
    using b(1) by (simp_all add: n_def)
  have run: "local_preprocess_ranges obj_size (Some c) None = Inr ?rs"
    using assms
    by (simp add: local_preprocess_ranges_def partition_config_def py_ceil_div_def then_do_def
        byte_ranges_def py_range_def q_def n_def o_def)
  have small: "int j * c + c \<le> obj_size" if "Suc j < n" for j
  proof -
    from that n have "int j + 1 \<le> q - 1" by simp
    then have "(int j + 1) * c \<le> (q - 1) * c"
      using assms(2) by (intro mult_right_mono) simp_all
    with b(2) show ?thesis by (simp add: algebra_simps)
  qed
  have lastj: "\<not> int (n - 1) * c + c \<le> obj_size \<or> int (n - 1) * c + c = obj_size"
    using b(3) n by (simp add: algebra_simps of_nat_diff)
  have start: "int j * c < obj_size" if "j < n" for j
  proof -
    from that n have "int j \<le> q - 1" by simp
    then have "int j * c \<le> (q - 1) * c"
      using assms(2) by (intro mult_right_mono) simp_all
    with b(2) show ?thesis by simp
  qed
  have "?rs \<noteq> []" using n by simp
  moreover have "fst (hd ?rs) = 0"
    using n by (simp add: hd_map upt_conv_Cons)
  moreover have "snd (last ?rs) = obj_size"
    using n lastj by (auto simp: last_map last_conv_nth)
  moreover have "\<forall>j. Suc j < length ?rs \<longrightarrow> snd (?rs ! j) = fst (?rs ! Suc j)"
    using small by (auto simp: algebra_simps)
  moreover have "\<forall>j. j < length ?rs \<longrightarrow> fst (?rs ! j) < snd (?rs ! j)"
    using start assms(2) by auto
  ultimately show ?thesis
    using run by blast
qed

section \<open>Facts about the scanner\<close>

lemma ini_heads_empty_iff:
  "ini_heads_from p data = [] \<longleftrightarrow> \<not> contains [NL, CHR ''>''] data"
  by (induction p data rule: ini_heads_from.induct) auto

lemma get_length_error:
  "get_length min_r content data a b = Inl e \<Longrightarrow> e = IndexError"
  by (auto simp: get_length_def Let_def split: if_splits)

lemma heads_body_error:
  "heads_body min_r worker_id data st m = Inl e \<Longrightarrow> e = IndexError"
  by (auto simp: heads_body_def then_do_def Let_def split: prod.splits if_splits sum.splits
      dest: get_length_error)

lemma heads_loop_error:
  "heads_loop min_r worker_id data st ms = Inl e \<Longrightarrow> e = IndexError"
proof (induction ms arbitrary: st)
  case Nil
  then show ?case by simp
next
  case (Cons m ms)
  show ?case
  proof (cases "heads_body min_r worker_id data st m")
    case (Inl e')
    with Cons.prems have "e = e'" by (simp add: then_do_def)
    with Inl show ?thesis by (simp add: heads_body_error)
  next
    case (Inr st')
    with Cons.prems have "heads_loop min_r worker_id data st' ms = Inl e"
      by (simp add: then_do_def)
    then show ?thesis by (rule Cons.IH)
  qed
qed

lemma heads_skip: "CHR ''>'' \<notin> set b \<Longrightarrow> heads_from p (b @ s) = heads_from (p + length b) s"
  by (induction b arbitrary: p) auto

lemma takeWhile_field: "d \<notin> set h \<Longrightarrow> takeWhile (\<lambda>x. x \<noteq> d) (h @ d # s) = h"
  by (induction h) auto

lemma dropWhile_field: "d \<notin> set h \<Longrightarrow> dropWhile (\<lambda>x. x \<noteq> d) (h @ d # s) = d # s"
  by (induction h) auto

lemma heads_header:
  assumes "h \<noteq> []" and "NL \<notin> set h"
  shows "heads_from p (CHR ''>'' # h @ NL # s) = (p, p + length h + 2) # heads_from (p + length h + 2) s"
  using assms by (simp add: takeWhile_field dropWhile_field)

lemma fasta_text_Cons: "fasta_text (s # rest) = seq_text s @ fasta_text rest"
  by (simp add: fasta_text_def)

lemma fasta_text_snoc: "fasta_text (front @ [s]) = fasta_text front @ seq_text s"
  by (simp add: fasta_text_def)

lemma heads_fasta_text:
  "list_all well_formed_seq seqs \<Longrightarrow> heads_from p (fasta_text seqs @ t) = head_spans p seqs @ heads_from (p + length (fasta_text seqs)) t"
proof (induction seqs arbitrary: p)
  case Nil
  then show ?case by (simp add: fasta_text_def)
next
  case (Cons s rest)
  then have w: "fst s \<noteq> []" "NL \<notin> set (fst s)" "CHR ''>'' \<notin> set (snd s)"
    by (simp_all add: well_formed_seq_def)
  have "heads_from p (fasta_text (s # rest) @ t)
          = heads_from p (CHR ''>'' # fst s @ NL # (snd s @ fasta_text rest @ t))"
    by (simp add: fasta_text_Cons seq_text_def)
  also have "\<dots> = (p, p + length (fst s) + 2) # heads_from (p + length (fst s) + 2) (snd s @ fasta_text rest @ t)"
    using w by (intro heads_header)
  also have "heads_from (p + length (fst s) + 2) (snd s @ fasta_text rest @ t)
               = heads_from (p + length (seq_text s)) (fasta_text rest @ t)"
    using w by (simp add: heads_skip seq_text_def add.assoc)
  also have "\<dots> = head_spans (p + length (seq_text s)) rest
                    @ heads_from (p + length (seq_text s) + length (fasta_text rest)) t"
    using Cons by simp
  finally show ?case
    by (simp add: fasta_text_Cons add.assoc)
qed

lemma head_spans_snoc:
  "head_spans p (front @ [s]) = head_spans p front @ [(p + length (fasta_text front), p + length (fasta_text front) + length (fst s) + 2)]"
  by (induction front arbitrary: p) (simp_all add: fasta_text_def add.assoc)

lemma expected_entries_snoc:
  "expected_entries p (front @ [s]) = expected_entries p front @ [entry_of (p + length (fasta_text front)) s]"
  by (induction front arbitrary: p) (simp_all add: fasta_text_def add.assoc)

lemma heads_loop_append:
  "heads_loop mr w data st (xs @ ys) = then_do (heads_loop mr w data st xs) (\<lambda>st'. heads_loop mr w data st' ys)"
  by (induction xs arbitrary: st) (auto simp: then_do_def split: sum.splits)

lemma py_slice_mid: "py_slice (A @ B @ C) (int (length A)) (int (length A + length B)) = B"
  by (simp add: py_slice_def py_bound_def)

lemma slice_mid: "slice (A @ B @ C) (length A) (length A + length B) = B"
  by (simp add: slice_def)

lemma hd_split_on: "hd (split_on d s) = takeWhile (\<lambda>c. c \<noteq> d) s"
  by (induction s) (auto split: list.splits simp: split_on_nonempty)

lemma header_id:
  assumes "CHR ''>'' \<notin> set h"
  shows "replace_all ''>'' [] (hd (split_on (CHR '' '') (CHR ''>'' # h @ [NL])))
           = takeWhile (\<lambda>c. c \<noteq> CHR '' '') (h @ [NL])"
proof -
  let ?id = "takeWhile (\<lambda>c. c \<noteq> CHR '' '') (h @ [NL])"
  have "set ?id \<subseteq> set (h @ [NL])"
    by (auto dest: set_takeWhileD)
  then have "\<forall>x \<in> set ?id. x \<noteq> CHR ''>''"
    using assms by auto
  then have f: "filter (\<lambda>x. x \<noteq> CHR ''>'') ?id = ?id"
    by (simp add: filter_id_conv)
  have "hd (split_on (CHR '' '') (CHR ''>'' # h @ [NL])) = CHR ''>'' # ?id"
    by (subst hd_split_on) simp
  then have "replace_all ''>'' [] (hd (split_on (CHR '' '') (CHR ''>'' # h @ [NL])))
               = filter (\<lambda>x. x \<noteq> CHR ''>'') (CHR ''>'' # ?id)"
    by (simp only: replace_all_char_filter)
  with f show ?thesis by simp
qed

lemma heads_body_first_worker:
  "heads_body 0 0 T (fs, prev, content) (ms, me) =
     (if prev \<noteq> int ms then
        then_do (if prev \<noteq> - 1 then get_length 0 content T prev (int ms) else Inr content)
          (\<lambda>content2. Inr (False, int me,
             content2 @ [replace_all ''>'' [] (hd (split_on (CHR '' '') (slice T ms me)))
                           @ '' 1 '' @ str_int (int ms) @ '' '' @ str_int (int me)]))
      else Inr (False, int me, content))"
  by (simp add: heads_body_def Let_def)

lemma str_int_nat: "str_int (int n) = str_nat n"
  by (simp add: str_int_def)

lemma open_entry_scan:
  assumes "CHR ''>'' \<notin> set h"
  shows "replace_all ''>'' [] (hd (split_on (CHR '' '') (slice (A @ CHR ''>'' # h @ NL # t) (length A) (length A + length h + 2)))) 
           @ '' 1 '' @ str_int (int (length A)) @ '' '' @ str_int (int (length A + length h + 2))
         = open_entry (length A) h"
proof -
  have "slice (A @ (CHR ''>'' # h @ [NL]) @ t) (length A) (length A + length (CHR ''>'' # h @ [NL])) = CHR ''>'' # h @ [NL]"
    by (rule slice_mid)
  then have "slice (A @ CHR ''>'' # h @ NL # t) (length A) (length A + length h + 2) = CHR ''>'' # h @ [NL]"
    by (simp add: add.assoc)
  then have "replace_all ''>'' [] (hd (split_on (CHR '' '')
                 (slice (A @ CHR ''>'' # h @ NL # t) (length A) (length A + length h + 2))))
               = takeWhile (\<lambda>c. c \<noteq> CHR '' '') (h @ [NL])"
    by (simp only: header_id [OF assms])
  then show ?thesis
    by (simp only: open_entry_def str_int_nat)
qed

lemma get_length_body:
  assumes "content \<noteq> []"
  shows "get_length 0 content (A @ B @ C) (int (length A)) (int (length A + length B))
           = Inr (butlast content @ [last content @ '' '' @ str_nat (length (filter (\<lambda>c. c \<noteq> NL) B))])"
  using assms py_slice_mid [of A B C]
  by (simp add: get_length_def replace_all_char_filter)

lemma scan_prefix:
  assumes "seqs \<noteq> []" and "list_all well_formed_seq seqs" and "list_all ends_line (butlast seqs)"
  shows "heads_loop 0 0 (fasta_text seqs @ t) (True, - 1, []) (head_spans 0 seqs)
           = Inr (False, int (length (fasta_text (butlast seqs)) + length (fst (last seqs)) + 2),
                  expected_entries 0 (butlast seqs)
                    @ [open_entry (length (fasta_text (butlast seqs))) (fst (last seqs))])"
  using assms
proof (induction seqs arbitrary: t rule: rev_induct)
  case Nil
  then show ?case by simp
next
  case (snoc s front)
  obtain h b where s: "s = (h, b)" by (cases s)
  from snoc.prems s have hw: "CHR ''>'' \<notin> set h"
    by (simp add: well_formed_seq_def)
  let ?T = "fasta_text (front @ [s]) @ t"
  let ?P = "length (fasta_text front)"
  have T: "?T = fasta_text front @ CHR ''>'' # h @ NL # (b @ t)"
    by (simp add: fasta_text_def seq_text_def s)
  show ?case
  proof (cases "front = []")
    case True
    have "heads_body 0 0 ?T (True, - 1, []) (0, length h + 2) = Inr (False, int (length h + 2), [open_entry 0 h])"
      using open_entry_scan [OF hw, of "[]" "b @ t"]
      by (simp add: heads_body_first_worker then_do_def True fasta_text_def seq_text_def s)
    then show ?thesis
      by (simp add: True s then_do_def fasta_text_def)
  next
    case False
    then obtain hl bl mid where front: "front = mid @ [(hl, bl)]"
      by (metis rev_exhaust surj_pair)
    from snoc.prems have el: "list_all ends_line front"
      by simp
    with front have bl: "bl \<noteq> []"
      by (simp add: ends_line_def)
    let ?e = "length (fasta_text mid) + length hl + 2"
    let ?C = "expected_entries 0 mid"
    let ?A = "fasta_text mid @ CHR ''>'' # hl @ [NL]"
    have TA: "?T = ?A @ bl @ (CHR ''>'' # h @ NL # (b @ t))"
      by (simp add: front fasta_text_def seq_text_def s)
    have lenA: "length ?A = ?e" and lenP: "?P = ?e + length bl"
      by (simp_all add: front fasta_text_def seq_text_def)
    have wf: "list_all well_formed_seq front" "list_all ends_line (butlast front)"
      using snoc.prems el by (simp_all add: front)
    have "heads_loop 0 0 (fasta_text front @ (seq_text s @ t)) (True, - 1, []) (head_spans 0 front)
            = Inr (False, int (length (fasta_text (butlast front)) + length (fst (last front)) + 2),
                   expected_entries 0 (butlast front)
                     @ [open_entry (length (fasta_text (butlast front))) (fst (last front))])"
      using False wf by (rule snoc.IH)
    then have IH: "heads_loop 0 0 ?T (True, - 1, []) (head_spans 0 front)
                     = Inr (False, int ?e, ?C @ [open_entry (length (fasta_text mid)) hl])"
      by (simp add: front fasta_text_def seq_text_def)
    have gl: "get_length 0 (?C @ [open_entry (length (fasta_text mid)) hl]) ?T (int ?e) (int ?P)
                = Inr (expected_entries 0 front)"
    proof -
      have "get_length 0 (?C @ [open_entry (length (fasta_text mid)) hl]) (?A @ bl @ (CHR ''>'' # h @ NL # (b @ t)))
              (int (length ?A)) (int (length ?A + length bl))
            = Inr (butlast (?C @ [open_entry (length (fasta_text mid)) hl])
                     @ [last (?C @ [open_entry (length (fasta_text mid)) hl]) @ '' ''
                          @ str_nat (length (filter (\<lambda>c. c \<noteq> NL) bl))])"
        by (rule get_length_body) simp
      then show ?thesis
        unfolding TA [symmetric] lenA lenP [symmetric]
        by (simp add: front expected_entries_snoc entry_of_def)
    qed
    have oe: "replace_all ''>'' [] (hd (split_on (CHR '' '') (slice ?T ?P (?P + length h + 2))))
                @ '' 1 '' @ str_int (int ?P) @ '' '' @ str_int (int (?P + length h + 2))
              = open_entry ?P h"
      unfolding T by (rule open_entry_scan [OF hw])
    have body: "heads_body 0 0 ?T (False, int ?e, ?C @ [open_entry (length (fasta_text mid)) hl]) (?P, ?P + length h + 2)
                  = Inr (False, int (?P + length h + 2), expected_entries 0 front @ [open_entry ?P h])"
      unfolding heads_body_first_worker using bl gl oe
      by (simp add: lenP then_do_def)
    show ?thesis
      using IH body
      by (simp add: head_spans_snoc heads_loop_append then_do_def s)
  qed
qed

lemma ini_heads_points:
  "q \<in> set (ini_heads_from p s) \<Longrightarrow> p \<le> q \<and> Suc (q - p) < length s \<and> s ! Suc (q - p) = CHR ''>''"
proof (induction p s rule: ini_heads_from.induct)
  case (1 p c d cs)
  show ?case
  proof (cases "c = NL \<and> d = CHR ''>''")
    case True
    with "1.prems" have "q = p \<or> q \<in> set (ini_heads_from (p + 2) cs)"
      by simp
    then show ?thesis
    proof
      assume "q = p"
      with True show ?thesis by simp
    next
      assume "q \<in> set (ini_heads_from (p + 2) cs)"
      with True "1.IH"(1) have "p + 2 \<le> q \<and> Suc (q - (p + 2)) < length cs \<and> cs ! Suc (q - (p + 2)) = CHR ''>''"
        by simp
      moreover from this have "Suc (q - p) = Suc (Suc (Suc (q - (p + 2))))"
        by arith
      ultimately show ?thesis by simp
    qed
  next
    case False
    with "1.prems" have "q \<in> set (ini_heads_from (p + 1) (d # cs))"
      by auto
    with False "1.IH"(2) have "p + 1 \<le> q \<and> Suc (q - (p + 1)) < length (d # cs) \<and> (d # cs) ! Suc (q - (p + 1)) = CHR ''>''"
      by simp
    moreover from this have "Suc (q - p) = Suc (Suc (q - (p + 1)))"
      by arith
    ultimately show ?thesis by simp
  qed
qed simp_all

lemma last_marker_position:
  assumes "CHR ''>'' \<notin> set R" and "j < length (P @ CHR ''>'' # R)" and "(P @ CHR ''>'' # R) ! j = CHR ''>''"
  shows "j \<le> length P"
proof (rule ccontr)
  assume "\<not> j \<le> length P"
  then have "(P @ CHR ''>'' # R) ! j = R ! (j - length P - 1)" and "j - length P - 1 < length R"
    using assms(2) by (simp_all add: nth_append nth_Cons')
  with assms(1,3) show False
    by (metis nth_mem)
qed

lemma fasta_text_has_header_start:
  assumes "2 \<le> length seqs" and "list_all ends_line (butlast seqs)"
  shows "contains [NL, CHR ''>''] (fasta_text seqs)"
proof -
  from assms(1) obtain s1 s2 rest where seqs: "seqs = s1 # s2 # rest"
    by (cases seqs; cases "tl seqs") auto
  with assms(2) have "ends_line s1" by simp
  then obtain b' where b: "snd s1 = b' @ [NL]"
    by (metis ends_line_def append_butlast_last_id)
  have "fasta_text seqs = (CHR ''>'' # fst s1 @ NL # b') @ ([NL, CHR ''>''] @ fst s2 @ NL # snd s2 @ fasta_text rest)"
    by (simp add: seqs fasta_text_def seq_text_def b)
  moreover have "contains [NL, CHR ''>''] ([NL, CHR ''>''] @ fst s2 @ NL # snd s2 @ fasta_text rest)"
    by (rule contains_prefix) simp
  ultimately show ?thesis
    by (simp only: contains_append_left)
qed

section \<open>The claims\<close>

text \<open>
  C1. The object \<open>>s1\<newline>AAAA\<newline>>s2\<newline>CCCC\<newline>\<close> (18 bytes; the header line of \<open>s2\<close> is at
  bytes 9 to 12) cut into two chunks inside that header line, at byte 10, 11 or 12.
  \<^verbatim>\<open>map\<close> on the first chunk returns the entry of \<open>s1\<close> (base length 4, span count 1) and
  a tail-split marker for the cut header; \<^verbatim>\<open>map\<close> on the second chunk, which holds no
  header line, returns an empty list and no head-split marker. \<^verbatim>\<open>reduce\<close> resolves a
  marker only against a non-empty next record and so changes nothing: the final index
  holds the entry of \<open>s1\<close> and the tail-split marker, and no entry for \<open>s2\<close>, where the
  claim has the two entries of \<open>s1\<close> and \<open>s2\<close>.
\<close>

theorem end_to_end_header_split:
  "map_FASTA ''>s1\<newline>AAAA\<newline>>s'' 0 key 11 18 2
     = Inr \<lparr>min_range = 0, max_range = 11, sequences = [''s1\<newline> 1 0 4 4'', ''<_>s 9'']\<rparr>
   \<and> map_FASTA ''2\<newline>CCCC\<newline>'' 1 key 11 18 2 = Inr \<lparr>min_range = 11, max_range = 18, sequences = []\<rparr>
   \<and> map_reduce_two ''>s1\<newline>AAAA\<newline>>s2\<newline>CCCC\<newline>'' key 11
     = Inr [\<lparr>min_range = 0, max_range = 11, sequences = [''s1\<newline> 1 0 4 4'', ''<_>s 9'']\<rparr>,
            \<lparr>min_range = 11, max_range = 18, sequences = []\<rparr>]
   \<and> map_reduce_two ''>s1\<newline>AAAA\<newline>>s2\<newline>CCCC\<newline>'' key 10
     = Inr [\<lparr>min_range = 0, max_range = 10, sequences = [''s1\<newline> 1 0 4 4'', ''<_> 9'']\<rparr>,
            \<lparr>min_range = 10, max_range = 18, sequences = []\<rparr>]
   \<and> map_reduce_two ''>s1\<newline>AAAA\<newline>>s2\<newline>CCCC\<newline>'' key 12
     = Inr [\<lparr>min_range = 0, max_range = 12, sequences = [''s1\<newline> 1 0 4 4'', ''<_>s2 9'']\<rparr>,
            \<lparr>min_range = 12, max_range = 18, sequences = []\<rparr>]"
  by code_simp

theorem end_to_end_header_split_witness:
  "map_reduce_two ''>s1\<newline>AAAA\<newline>>s2\<newline>CCCC\<newline>'' ''genome.fasta'' 11
     = Inr [\<lparr>min_range = 0, max_range = 11, sequences = [''s1\<newline> 1 0 4 4'', ''<_>s 9'']\<rparr>,
            \<lparr>min_range = 11, max_range = 18, sequences = []\<rparr>]"
  using end_to_end_header_split [of "''genome.fasta''"] by simp

text \<open>
  C2. With \<open>num_workers = 3\<close> and an object of 10 bytes, \<open>chunk_size\<close> is \<open>round(10 / 3) = 3\<close>
  and the three ranges of \<^verbatim>\<open>__local_preprocess\<close> end at byte 9: byte 9 is in no range and the
  last range does not end at the size of the object. \<^verbatim>\<open>map\<close>, for the same last worker,
  takes its range to end at the size of the object. (With \<open>chunk_size\<close> supplied the
  ranges do cover the object: \<open>chunk_size_ranges_cover\<close>.)
\<close>

theorem worker_count_ranges_leave_gap:
  "local_preprocess_ranges 10 None (Some 3) = Inr [(0, 3), (3, 6), (6, 9)]
   \<and> map_FASTA ''A'' 2 key 3 10 3 = Inr \<lparr>min_range = 6, max_range = 10, sequences = []\<rparr>"
  by code_simp

theorem worker_count_ranges_leave_gap_witness:
  "local_preprocess_ranges 10 None (Some 3) = Inr [(0, 3), (3, 6), (6, 9)]
   \<and> map_FASTA ''A'' 2 ''genome.fasta'' 3 10 3 = Inr \<lparr>min_range = 6, max_range = 10, sequences = []\<rparr>"
  by (rule worker_count_ranges_leave_gap)

text \<open>
  C3, as the code has it. \<^verbatim>\<open>reduce\<close> has no error for a malformed boundary. When the second
  of two records starts with a head-split marker (one or two candidate offsets and
  lengths) and the first ends with an entry that is not a tail-split marker, that entry
  is read as a regular entry \<open>id span header_offset base_offset length\<close> whose body
  goes on in the second record. With the span count 1 that \<^verbatim>\<open>map\<close> writes, \<^verbatim>\<open>reduce\<close> returns
  normally: the span count of the entry becomes 2 and the marker becomes the entry
  \<open>id 2 header_offset o0 l0\<close>, with the first candidate offset and length.
\<close>

theorem regular_entry_is_body_split:
  assumes cur: "sequences r1 = (''>> <X> <Y> '' @ p3 @ '' '' @ p4 @ '' ^'' @ frag @ ''^'') # others"
    and shape: "(p3 = o0 \<and> p4 = l0) \<or> (p3 = o0 @ ''-'' @ o1 \<and> p4 = l0 @ ''-'' @ l1 \<and> digits o1 \<and> digits l1)"
    and prev: "sequences r0 = pre @ [name @ '' 1 '' @ oh @ '' '' @ ob @ '' '' @ ln]"
    and nt: "\<not> contains ''<->'' (name @ '' 1 '' @ oh @ '' '' @ ob @ '' '' @ ln)"
            "\<not> contains ''<_>'' (name @ '' 1 '' @ oh @ '' '' @ ob @ '' '' @ ln)"
    and name: "CHR '' '' \<notin> set name"
    and dg: "digits oh" "digits ob" "digits ln" "digits o0" "digits l0"
    and ob: "ob \<noteq> ''1''"
    and tx: "CHR '' '' \<notin> set frag"
  shows "reduce [r0, r1] =
           Inr [r0\<lparr>sequences := pre @ [name @ '' 2 '' @ oh @ '' '' @ ob @ '' '' @ ln]\<rparr>,
                r1\<lparr>sequences := (name @ '' 2 '' @ oh @ '' '' @ o0 @ '' '' @ l0) # others\<rparr>]"
proof -
  let ?rs = "[r0, r1]"
  let ?e = "name @ '' 1 '' @ oh @ '' '' @ ob @ '' '' @ ln"
  have one: "py_int ''1'' = Inr 1"
    by (simp add: py_int_def strip_def is_space_def digit_val_def)
  have s1: "str_int 1 = ''1''" and s2: "str_int 2 = ''2''"
    by (simp_all add: str_int_def str_nat.simps)
  have step: "reduce_body ?rs 1 =
      Inr ((map (\<lambda>x. if 1 - nat 1 \<le> x \<and> x < 1 then bump_span 1 (?rs ! x) else ?rs ! x) [0..<length ?rs])
             [1 := (?rs ! 1)\<lparr>sequences :=
                (name @ '' '' @ str_int (1 + 1) @ '' '' @ oh @ '' '' @ o0 @ '' '' @ l0) # others\<rparr>])"
  proof (rule body_split_step [where sp = "''1''" and rest = "'' '' @ ob @ '' '' @ ln" and pre = pre
        and ?o1.0 = o1 and ?l1.0 = l1])
    show "sequences (?rs ! 1) = (''>> <X> <Y> '' @ p3 @ '' '' @ p4 @ '' ^'' @ frag @ ''^'') # others"
      using cur by simp
    show "sequences (?rs ! (1 - 1)) = pre @ [name @ '' '' @ ''1'' @ '' '' @ oh @ '' '' @ ob @ '' '' @ ln]"
      using prev by simp
    show "\<not> contains ''<->'' (name @ '' '' @ ''1'' @ '' '' @ oh @ '' '' @ ob @ '' '' @ ln)"
      using nt(1) by simp
    show "\<not> contains ''<_>'' (name @ '' '' @ ''1'' @ '' '' @ oh @ '' '' @ ob @ '' '' @ ln)"
      using nt(2) by simp
    show "\<forall>x. 1 - nat 1 \<le> x \<and> x < 1 \<longrightarrow> sequences (?rs ! x) \<noteq> []"
      using prev by simp
  qed (use shape name dg tx one in simp_all)
  have bump: "bump_span 1 r0 = r0\<lparr>sequences := pre @ [name @ '' 2 '' @ oh @ '' '' @ ob @ '' '' @ ln]\<rparr>"
    using prev span_one_to_two [OF name dg(1,2,3) ob] by (simp add: bump_span_def s1 s2)
  have "reduce ?rs = reduce_body ?rs 1"
    by (simp add: reduce_def reduce_body_first then_do_def split: sum.splits)
  also have "\<dots> = Inr [bump_span 1 r0, r1\<lparr>sequences := (name @ '' 2 '' @ oh @ '' '' @ o0 @ '' '' @ l0) # others\<rparr>]"
    unfolding step by (simp add: s2 upt_rec)
  finally show ?thesis
    by (simp add: bump)
qed

theorem regular_entry_is_body_split_witness:
  "reduce [\<lparr>min_range = 0, max_range = 22, sequences = [''s0 1 0 6 2'', ''s1 1 9 15 6'']\<rparr>,
           \<lparr>min_range = 22, max_range = 37,
              sequences = [''>> <X> <Y> 22-25 4-2 ^CC\<newline>^'', ''s3 1 28 34 2'']\<rparr>]
     = Inr [\<lparr>min_range = 0, max_range = 22, sequences = [''s0 1 0 6 2'', ''s1 2 9 15 6'']\<rparr>,
            \<lparr>min_range = 22, max_range = 37, sequences = [''s1 2 9 22 4'', ''s3 1 28 34 2'']\<rparr>]"
  using regular_entry_is_body_split [where
      ?r0.0 = "\<lparr>min_range = 0, max_range = 22, sequences = [''s0 1 0 6 2'', ''s1 1 9 15 6'']\<rparr>"
      and ?r1.0 = "\<lparr>min_range = 22, max_range = 37,
                      sequences = [''>> <X> <Y> 22-25 4-2 ^CC\<newline>^'', ''s3 1 28 34 2'']\<rparr>"
      and ?p3.0 = "''22-25''" and ?p4.0 = "''4-2''" and frag = "''CC\<newline>''" and others = "[''s3 1 28 34 2'']"
      and ?o0.0 = "''22''" and ?o1.0 = "''25''" and ?l0.0 = "''4''" and ?l1.0 = "''2''"
      and pre = "[''s0 1 0 6 2'']" and name = "''s1''" and oh = "''9''" and ob = "''15''" and ln = "''6''"]
  by (simp add: witness_defs)

text \<open>
  C3, as stated, fails: the first entry of the second record is a head-split marker, the
  last entry of the first record is not a tail-split marker, and \<^verbatim>\<open>reduce\<close> returns an index.
\<close>

theorem body_split_no_boundary_error:
  "contains ''>>'' ''>> <X> <Y> 20 4 ^CCCC\<newline>^''
   \<and> \<not> contains ''<->'' ''s1 1 9 15 4'' \<and> \<not> contains ''<_>'' ''s1 1 9 15 4''
   \<and> reduce [\<lparr>min_range = 0, max_range = 20, sequences = [''s0 1 0 6 2'', ''s1 1 9 15 4'']\<rparr>,
              \<lparr>min_range = 20, max_range = 34, sequences = [''>> <X> <Y> 20 4 ^CCCC\<newline>^'', ''s3 1 25 31 2'']\<rparr>]
       = Inr [\<lparr>min_range = 0, max_range = 20, sequences = [''s0 1 0 6 2'', ''s1 2 9 15 4'']\<rparr>,
              \<lparr>min_range = 20, max_range = 34, sequences = [''s1 2 9 20 4'', ''s3 1 25 31 2'']\<rparr>]"
  by code_simp

text \<open>
  C4, as the code has it. Record \<open>i\<close> starts with a head-split marker with two candidate
  offsets and lengths, record \<open>i - 1\<close> ends with a tail-split marker \<open>tag id header_offset\<close>.
  For the complete-id tag \<open><->\<close> the id is used as it is; for the partial-id tag \<open><_>\<close> it
  is followed by the continuation text of the head-split marker (without \<open>^\<close>). In both
  cases the second candidate offset and length are taken, the span count is 1, the
  tail-split marker is removed, and the header offset becomes \<open>max_range\<close> of record
  \<open>i - 1\<close> and \<open>min_range\<close> of record \<open>i\<close>.
\<close>

theorem tail_split_resolution:
  assumes i: "0 < i" "i < length rs"
    and cur: "sequences (rs ! i)
                = (''>> <X> <Y> '' @ (o0 @ ''-'' @ o1) @ '' '' @ (l0 @ ''-'' @ l1) @ '' ^'' @ frag @ ''^'') # others"
    and prev: "sequences (rs ! (i - 1)) = pre @ [tag @ name @ '' '' @ oh]"
    and tag: "tag = ''<->'' \<or> tag = ''<_>''"
    and dg: "digits o0" "digits o1" "digits l0" "digits l1" "digits oh"
    and oh: "py_int oh = Inr v"
    and tx: "CHR '' '' \<notin> set frag"
    and name: "CHR '' '' \<notin> set name" "CHR ''<'' \<notin> set name"
  shows "reduce_body rs i =
           Inr (rs[i - 1 := (rs ! (i - 1))\<lparr>max_range := v, sequences := pre\<rparr>,
                   i := (rs ! i)\<lparr>min_range := v,
                          sequences := ((if tag = ''<->'' then name else name @ filter (\<lambda>c. c \<noteq> CHR ''^'') frag)
                                          @ '' 1 '' @ oh @ '' '' @ o1 @ '' '' @ l1) # others\<rparr>])"
proof -
  note d = dg [THEN digitsD]
  let ?m = "''>> <X> <Y> '' @ (o0 @ ''-'' @ o1) @ '' '' @ (l0 @ ''-'' @ l1) @ '' ^'' @ frag @ ''^''"
  let ?e = "tag @ name @ '' '' @ oh"
  let ?param = "[''>>'', ''<X>'', ''<Y>'', o0 @ ''-'' @ o1, l0 @ ''-'' @ l1, ''^'' @ frag @ ''^'']"
  let ?id = "if tag = ''<->'' then name else name @ filter (\<lambda>c. c \<noteq> CHR ''^'') frag"
  have param: "split_on (CHR '' '') ?m = ?param"
    using d tx by (intro marker_fields) simp_all
  have "CHR '' '' \<notin> set (tag @ name)"
    using tag name by auto
  then have psp: "split_on (CHR '' '') ?e = [tag @ name, oh]"
    using d tail_fields [of "tag @ name" oh] by simp
  have guard: "contains ''>>'' ?m"
    by (rule contains_prefix) simp
  have tm: "contains ''<->'' ?e \<or> contains ''<_>'' ?e"
    using tag by (rule tail_marker_test)
  have res: "resolve ?param ?e [tag @ name, oh] = Inr (?id, l1, oh, o1)"
    using tag name(2) dg by (rule resolve_tail)
  have rw: "rewrite_marker ?param ?id l1 oh o1 0 ?m
              = Inr (?id @ '' '' @ str_int (0 + 1) @ '' '' @ oh @ '' '' @ o1 @ '' '' @ l1)"
    using dg(1-5) dg(2) dg(4) tx by (rule rewrite_two)
  have one: "str_int (0 + 1) = ''1''"
    by (simp add: str_int_def str_nat.simps)
  from i have j: "(if i = 0 then length rs - 1 else i - 1) = i - 1" "i - 1 < length rs" "i - 1 \<noteq> i"
    by simp_all
  show ?thesis
    unfolding reduce_body_def Let_def j
    using i cur prev guard tm param psp res rw one oh
    by (simp add: then_do_def)
qed

theorem tail_split_resolution_witness:
  "reduce_body [\<lparr>min_range = 0, max_range = 17, sequences = [''s1 1 0 6 4'', ''<->seq2 11'']\<rparr>,
                \<lparr>min_range = 17, max_range = 33,
                   sequences = [''>> <X> <Y> 17-19 5-4 ^d\<newline>^'', ''s3 1 24 30 2'']\<rparr>] 1
     = Inr [\<lparr>min_range = 0, max_range = 11, sequences = [''s1 1 0 6 4'']\<rparr>,
            \<lparr>min_range = 11, max_range = 33, sequences = [''seq2 1 11 19 4'', ''s3 1 24 30 2'']\<rparr>]"
  using tail_split_resolution [where i = 1
      and rs = "[\<lparr>min_range = 0, max_range = 17, sequences = [''s1 1 0 6 4'', ''<->seq2 11'']\<rparr>,
                 \<lparr>min_range = 17, max_range = 33,
                    sequences = [''>> <X> <Y> 17-19 5-4 ^d\<newline>^'', ''s3 1 24 30 2'']\<rparr>]"
      and ?o0.0 = "''17''" and ?o1.0 = "''19''" and ?l0.0 = "''5''" and ?l1.0 = "''4''"
      and frag = "''d\<newline>''" and others = "[''s3 1 24 30 2'']" and pre = "[''s1 1 0 6 4'']"
      and tag = "''<->''" and name = "''seq2''" and oh = "''11''" and v = 11]
  by (simp add: witness_defs)

text \<open>
  C4, as stated, fails: after the partial-id marker \<open><_>s 11\<close> the entry of \<open>s2\<close> gets the
  second candidate pair (offset 17, length 4), not the first (offset 13, length 7).
\<close>

theorem partial_id_selects_second_pair:
  "reduce [\<lparr>min_range = 0, max_range = 13, sequences = [''s1 1 0 6 4'', ''<_>s 11'']\<rparr>,
           \<lparr>min_range = 13, max_range = 32, sequences = [''>> <X> <Y> 13-17 7-4 ^2^'', ''s3 1 22 28 2'']\<rparr>]
     = Inr [\<lparr>min_range = 0, max_range = 11, sequences = [''s1 1 0 6 4'']\<rparr>,
            \<lparr>min_range = 11, max_range = 32, sequences = [''s2 1 11 17 4'', ''s3 1 22 28 2'']\<rparr>]"
  by code_simp

text \<open>
  C5, as the code has it. Record \<open>i\<close> starts with a head-split marker, record \<open>i - 1\<close> ends with
  an entry \<open>id span header_offset ...\<close> that is not a tail-split marker and whose span
  field reads \<open>k\<close>, with \<open>0 \<le> k \<le> i\<close> and the records \<open>i - k\<close> to \<open>i - 1\<close> not empty. Then the
  loop body replaces \<open>' k '\<close> by \<open>' k+1 '\<close> in the last entry of each of the records \<open>i - k\<close> to
  \<open>i - 1\<close>, leaves the other records as they are, and rewrites the marker into the entry
  \<open>id k+1 header_offset o0 l0\<close>.
\<close>

theorem span_increment_on_body_split:
  assumes "0 < i" and "i < length rs"
    and "sequences (rs ! i) = (''>> <X> <Y> '' @ p3 @ '' '' @ p4 @ '' ^'' @ frag @ ''^'') # others"
    and "(p3 = o0 \<and> p4 = l0) \<or> (p3 = o0 @ ''-'' @ o1 \<and> p4 = l0 @ ''-'' @ l1 \<and> digits o1 \<and> digits l1)"
    and "sequences (rs ! (i - 1)) = pre @ [name @ '' '' @ sp @ '' '' @ oh @ rest]"
    and "rest = [] \<or> hd rest = CHR '' ''"
    and "\<not> contains ''<->'' (name @ '' '' @ sp @ '' '' @ oh @ rest)"
    and "\<not> contains ''<_>'' (name @ '' '' @ sp @ '' '' @ oh @ rest)"
    and "CHR '' '' \<notin> set name" and "CHR '' '' \<notin> set sp"
    and "digits oh" and "digits o0" and "digits l0"
    and "CHR '' '' \<notin> set frag"
    and "py_int sp = Inr k" and "0 \<le> k" and "k \<le> int i"
    and "\<forall>x. i - nat k \<le> x \<and> x < i \<longrightarrow> sequences (rs ! x) \<noteq> []"
  shows "reduce_body rs i =
           Inr ((map (\<lambda>x. if i - nat k \<le> x \<and> x < i then bump_span k (rs ! x) else rs ! x) [0..<length rs])
                  [i := (rs ! i)\<lparr>sequences :=
                     (name @ '' '' @ str_int (k + 1) @ '' '' @ oh @ '' '' @ o0 @ '' '' @ l0) # others\<rparr>])"
  using assms by (rule body_split_step)

theorem span_increment_on_body_split_witness:
  "reduce_body [\<lparr>min_range = 0, max_range = 20, sequences = [''s0 1 0 6 2'', ''s1 2 9 15 4'']\<rparr>,
                \<lparr>min_range = 20, max_range = 40, sequences = [''s1 2 9 20 8'']\<rparr>,
                \<lparr>min_range = 40, max_range = 54,
                   sequences = [''>> <X> <Y> 40 4 ^CCCC\<newline>^'', ''s3 1 45 51 2'']\<rparr>] 2
     = Inr [\<lparr>min_range = 0, max_range = 20, sequences = [''s0 1 0 6 2'', ''s1 3 9 15 4'']\<rparr>,
            \<lparr>min_range = 20, max_range = 40, sequences = [''s1 3 9 20 8'']\<rparr>,
            \<lparr>min_range = 40, max_range = 54, sequences = [''s1 3 9 40 4'', ''s3 1 45 51 2'']\<rparr>]"
  using span_increment_on_body_split [where i = 2
      and rs = "[\<lparr>min_range = 0, max_range = 20, sequences = [''s0 1 0 6 2'', ''s1 2 9 15 4'']\<rparr>,
                 \<lparr>min_range = 20, max_range = 40, sequences = [''s1 2 9 20 8'']\<rparr>,
                 \<lparr>min_range = 40, max_range = 54,
                    sequences = [''>> <X> <Y> 40 4 ^CCCC\<newline>^'', ''s3 1 45 51 2'']\<rparr>]"
      and ?p3.0 = "''40''" and ?p4.0 = "''4''" and frag = "''CCCC\<newline>''" and others = "[''s3 1 45 51 2'']"
      and ?o0.0 = "''40''" and ?l0.0 = "''4''" and pre = "[]" and name = "''s1''" and sp = "''2''"
      and oh = "''9''" and rest = "'' 20 8''" and k = 2]
  by (simp add: witness_defs bump_span_def str_int_def str_nat.simps replace_all.simps
      numeral_2_eq_2 less_Suc_eq upt_rec)

text \<open>
  C5, as stated, fails: the partial-id tail-split marker \<open><_>seq 11\<close> has no span-count
  field; resolving it increments no span count, and the entry of \<open>seq2\<close>, whose header and
  body lie in two chunks, gets the span count 1.
\<close>

theorem partial_id_no_span_increment:
  "map_FASTA ''>s1 d\<newline>AAAA\<newline>>seq'' 0 ''genome.fasta'' 15 33 2
     = Inr \<lparr>min_range = 0, max_range = 15, sequences = [''s1 1 0 6 4'', ''<_>seq 11'']\<rparr>
   \<and> map_reduce_two ''>s1 d\<newline>AAAA\<newline>>seq2 d\<newline>CCCC\<newline>>s3 d\<newline>GG\<newline>'' ''genome.fasta'' 15
     = Inr [\<lparr>min_range = 0, max_range = 11, sequences = [''s1 1 0 6 4'']\<rparr>,
            \<lparr>min_range = 11, max_range = 33, sequences = [''seq2 1 11 19 4'', ''s3 1 24 30 2'']\<rparr>]"
  by code_simp

text \<open>
  C6, as the code has it. For an object of at least two sequences, every header line
  with at least one character after \<open>>\<close> (none of them \<open>>\<close>), every body without \<open>>\<close>, and every
  body but the last not empty and ended by a newline, \<^verbatim>\<open>map\<close> on the whole text as a single
  chunk (worker 0 of 1) returns one entry for every header line, in order, with the
  span count 1, the offsets of the header line and the number of characters of the body
  other than newlines.
\<close>

theorem single_chunk_index:
  assumes wf: "well_formed seqs" and two: "2 \<le> length seqs"
  shows "map_FASTA (fasta_text seqs) 0 key chunk_size (int (length (fasta_text seqs))) 1
           = Inr \<lparr>min_range = 0, max_range = int (length (fasta_text seqs)),
                  sequences = expected_entries 0 seqs\<rparr>
         \<and> length (expected_entries 0 seqs) = length seqs"
proof -
  let ?T = "fasta_text seqs"
  from wf have ws: "list_all well_formed_seq seqs" and el: "list_all ends_line (butlast seqs)"
    by (simp_all add: well_formed_def)
  from two have ne: "seqs \<noteq> []" by auto
  then obtain front h b where seqs: "seqs = front @ [(h, b)]"
    by (metis rev_exhaust surj_pair)
  from ws seqs have hb: "h \<noteq> []" "NL \<notin> set h" "CHR ''>'' \<notin> set h" "CHR ''>'' \<notin> set b"
    by (simp_all add: well_formed_seq_def)
  let ?P = "length (fasta_text front)"
  have T: "?T = fasta_text front @ CHR ''>'' # (h @ NL # b)"
    by (simp add: seqs fasta_text_def seq_text_def)
  have heads: "heads_from 0 ?T = head_spans 0 seqs"
    using heads_fasta_text [OF ws, of 0 "[]"] by simp
  have last_head: "last (head_spans 0 seqs) = (?P, ?P + length h + 2)" and heads_ne: "head_spans 0 seqs \<noteq> []"
    by (simp_all add: seqs head_spans_snoc)
  have ini_ne: "ini_heads_from 0 ?T \<noteq> []"
    using fasta_text_has_header_start [OF two el] by (simp add: ini_heads_empty_iff)
  then have "last (ini_heads_from 0 ?T) \<in> set (ini_heads_from 0 ?T)"
    by simp
  then have "Suc (last (ini_heads_from 0 ?T)) < length ?T \<and> ?T ! Suc (last (ini_heads_from 0 ?T)) = CHR ''>''"
    using ini_heads_points [of _ 0 ?T] by simp
  then have "Suc (last (ini_heads_from 0 ?T)) \<le> ?P"
    unfolding T using hb by (intro last_marker_position [where R = "h @ NL # b"]) auto
  then have not_cut: "\<not> int (last (ini_heads_from 0 ?T)) + 1 > int ?P"
    by simp
  have loop: "heads_loop 0 0 ?T (True, - 1, []) (head_spans 0 seqs)
                = Inr (False, int (?P + length h + 2), expected_entries 0 front @ [open_entry ?P h])"
    using scan_prefix [OF ne ws el, of "[]"] by (simp add: seqs)
  have "get_length 0 (expected_entries 0 front @ [open_entry ?P h])
          ((fasta_text front @ CHR ''>'' # h @ [NL]) @ b @ [])
          (int (length (fasta_text front @ CHR ''>'' # h @ [NL])))
          (int (length (fasta_text front @ CHR ''>'' # h @ [NL]) + length b))
        = Inr (butlast (expected_entries 0 front @ [open_entry ?P h])
                 @ [last (expected_entries 0 front @ [open_entry ?P h]) @ '' ''
                      @ str_nat (length (filter (\<lambda>c. c \<noteq> NL) b))])"
    by (rule get_length_body) simp
  then have fin: "get_length 0 (expected_entries 0 front @ [open_entry ?P h]) ?T
                    (int (?P + length h + 2)) (int (length ?T))
                  = Inr (expected_entries 0 seqs)"
    by (simp add: seqs fasta_text_snoc seq_text_def expected_entries_snoc entry_of_def add.assoc)
  have "map_FASTA ?T 0 key chunk_size (int (length ?T)) 1
          = Inr \<lparr>min_range = 0, max_range = int (length ?T), sequences = expected_entries 0 seqs\<rparr>"
    unfolding map_FASTA_def Let_def heads
    using ini_ne heads_ne loop fin not_cut last_head
    by (simp add: then_do_def map_finish_def Let_def)
  moreover have "length (expected_entries p seqs) = length seqs" for p
    by (induction seqs arbitrary: p) simp_all
  ultimately show ?thesis by simp
qed

theorem single_chunk_index_witness:
  "map_FASTA ''>s1 d\<newline>AAAA\<newline>AA\<newline>>s2\<newline>CCCC'' 0 ''genome.fasta'' 22 22 1
     = Inr \<lparr>min_range = 0, max_range = 22, sequences = [''s1 1 0 6 6'', ''s2\<newline> 1 14 18 4'']\<rparr>"
  using single_chunk_index [of "[(''s1 d'', ''AAAA\<newline>AA\<newline>''), (''s2'', ''CCCC'')]" "''genome.fasta''" 22]
  by (simp add: well_formed_def well_formed_seq_def ends_line_def fasta_text_def seq_text_def
      entry_of_def open_entry_def str_nat.simps)

text \<open>
  C6, as stated, fails: a header line that follows another header line directly gets no
  entry of its own (line 80 adds an entry only when the header does not start where the
  header before it ended); three header lines give two entries, and the entry of \<open>s1\<close>,
  whose body is empty, carries the base length of \<open>s2\<close>.
\<close>

theorem adjacent_headers_share_entry:
  "map_FASTA ''>s1 d\<newline>>s2 d\<newline>AA\<newline>>s3 d\<newline>CCC\<newline>'' 0 ''genome.fasta'' 25 25 1
     = Inr \<lparr>min_range = 0, max_range = 25, sequences = [''s1 1 0 6 2'', ''s3 1 15 21 3'']\<rparr>"
  by code_simp

text \<open>
  C7. On the empty chunk text \<^verbatim>\<open>map\<close> ends in an IndexError, at the test
  \<^verbatim>\<open>data[0] == '>'\<close> of line 47, where the claim has an empty sequences list and no error.
  On every other text with a first character other than \<open>>\<close> and with no newline followed
  by \<open>>\<close> (no header start) \<^verbatim>\<open>map\<close> returns, without an error, a Partial Record with an
  empty sequences list and the range of the worker.
\<close>

theorem empty_chunk_index_error:
  "map_FASTA [] worker_id key chunk_size obj_size partitions = Inl IndexError
   \<and> (data \<noteq> [] \<and> hd data \<noteq> CHR ''>'' \<and> \<not> contains [NL, CHR ''>''] data \<longrightarrow>
        map_FASTA data worker_id key chunk_size obj_size partitions =
           Inr \<lparr>min_range = worker_id * chunk_size,
                max_range = (if worker_id = partitions - 1 then obj_size else (worker_id + 1) * chunk_size),
                sequences = []\<rparr>)"
proof (intro conjI impI)
  show "map_FASTA [] worker_id key chunk_size obj_size partitions = Inl IndexError"
    by (simp add: map_FASTA_def)
next
  assume a: "data \<noteq> [] \<and> hd data \<noteq> CHR ''>'' \<and> \<not> contains [NL, CHR ''>''] data"
  then have "ini_heads_from 0 data = []"
    by (simp add: ini_heads_empty_iff)
  with a show "map_FASTA data worker_id key chunk_size obj_size partitions =
           Inr \<lparr>min_range = worker_id * chunk_size,
                max_range = (if worker_id = partitions - 1 then obj_size else (worker_id + 1) * chunk_size),
                sequences = []\<rparr>"
    by (simp add: map_FASTA_def Let_def)
qed

theorem empty_chunk_index_error_witness:
  "map_FASTA [] 0 ''genome.fasta'' 4 0 1 = Inl IndexError
   \<and> map_FASTA ''ACGT\<newline>AC'' 1 ''genome.fasta'' 7 21 3 = Inr \<lparr>min_range = 7, max_range = 14, sequences = []\<rparr>"
  using empty_chunk_index_error [of 0 "''genome.fasta''" 4 0 1 "''ACGT\<newline>AC''"]
    empty_chunk_index_error [of 1 "''genome.fasta''" 7 21 3 "''ACGT\<newline>AC''"]
  by simp

text \<open>
  C8. The range computation of the map/reduce entry point raises one of its two
  configuration exceptions when both \<open>chunk_size\<close> and \<open>num_workers\<close> are supplied and when
  neither is; with exactly one of them it raises no such exception.
\<close>

theorem config_error_both_or_neither:
  "local_preprocess_ranges obj_size (Some c) (Some n)
     = Inl (Exception ''Both chunk_size and num_workers is not allowed'')
   \<and> local_preprocess_ranges obj_size None None
     = Inl (Exception ''At least chunk_size or num_workers parameter is required'')
   \<and> (\<forall>msg. local_preprocess_ranges obj_size (Some c) None \<noteq> Inl (Exception msg))
   \<and> (\<forall>msg. local_preprocess_ranges obj_size None (Some n) \<noteq> Inl (Exception msg))"
  by (simp add: local_preprocess_ranges_def partition_config_def py_ceil_div_def py_round_div_def
      then_do_def)

text \<open>
  C9. An object of 54 bytes in three chunks of 20, 20 and 14 bytes: the body of \<open>s1\<close>
  starts in the first chunk, fills the second and ends in the third. \<^verbatim>\<open>map\<close> returns an
  empty list for the second chunk and a head-split marker as the first entry of the
  third. \<^verbatim>\<open>reduce\<close> resolves a head-split marker only when the record before it is not
  empty (line 114), so the marker is still in the result, where the claim has every
  marker resolved into a final entry. Cut into two chunks at byte 40, the same object
  has its marker resolved.
\<close>

theorem marker_after_empty_record_stays:
  "map_FASTA ''>s0 x\<newline>AC\<newline>>s1 y\<newline>GGGG\<newline>'' 0 key 20 54 3
     = Inr \<lparr>min_range = 0, max_range = 20, sequences = [''s0 1 0 6 2'', ''s1 1 9 15 4'']\<rparr>
   \<and> map_FASTA ''GGGG\<newline>GGGG\<newline>GGGG\<newline>GGGG\<newline>'' 1 key 20 54 3
     = Inr \<lparr>min_range = 20, max_range = 40, sequences = []\<rparr>
   \<and> map_FASTA ''CCCC\<newline>>s3 z\<newline>AC\<newline>'' 2 key 20 54 3
     = Inr \<lparr>min_range = 40, max_range = 54, sequences = [''>> <X> <Y> 40 4 ^CCCC\<newline>^'', ''s3 1 45 51 2'']\<rparr>
   \<and> reduce [\<lparr>min_range = 0, max_range = 20, sequences = [''s0 1 0 6 2'', ''s1 1 9 15 4'']\<rparr>,
              \<lparr>min_range = 20, max_range = 40, sequences = []\<rparr>,
              \<lparr>min_range = 40, max_range = 54, sequences = [''>> <X> <Y> 40 4 ^CCCC\<newline>^'', ''s3 1 45 51 2'']\<rparr>]
     = Inr [\<lparr>min_range = 0, max_range = 20, sequences = [''s0 1 0 6 2'', ''s1 1 9 15 4'']\<rparr>,
            \<lparr>min_range = 20, max_range = 40, sequences = []\<rparr>,
            \<lparr>min_range = 40, max_range = 54, sequences = [''>> <X> <Y> 40 4 ^CCCC\<newline>^'', ''s3 1 45 51 2'']\<rparr>]
   \<and> map_reduce_three ''>s0 x\<newline>AC\<newline>>s1 y\<newline>GGGG\<newline>GGGG\<newline>GGGG\<newline>GGGG\<newline>GGGG\<newline>CCCC\<newline>>s3 z\<newline>AC\<newline>'' key 20
     = Inr [\<lparr>min_range = 0, max_range = 20, sequences = [''s0 1 0 6 2'', ''s1 1 9 15 4'']\<rparr>,
            \<lparr>min_range = 20, max_range = 40, sequences = []\<rparr>,
            \<lparr>min_range = 40, max_range = 54, sequences = [''>> <X> <Y> 40 4 ^CCCC\<newline>^'', ''s3 1 45 51 2'']\<rparr>]
   \<and> map_reduce_two ''>s0 x\<newline>AC\<newline>>s1 y\<newline>GGGG\<newline>GGGG\<newline>GGGG\<newline>GGGG\<newline>GGGG\<newline>CCCC\<newline>>s3 z\<newline>AC\<newline>'' key 40
     = Inr [\<lparr>min_range = 0, max_range = 40, sequences = [''s0 1 0 6 2'', ''s1 2 9 15 20'']\<rparr>,
            \<lparr>min_range = 40, max_range = 54, sequences = [''s1 2 9 40 4'', ''s3 1 45 51 2'']\<rparr>]"
  by code_simp

theorem marker_after_empty_record_stays_witness:
  "map_reduce_three ''>s0 x\<newline>AC\<newline>>s1 y\<newline>GGGG\<newline>GGGG\<newline>GGGG\<newline>GGGG\<newline>GGGG\<newline>CCCC\<newline>>s3 z\<newline>AC\<newline>'' ''genome.fasta'' 20
     = Inr [\<lparr>min_range = 0, max_range = 20, sequences = [''s0 1 0 6 2'', ''s1 1 9 15 4'']\<rparr>,
            \<lparr>min_range = 20, max_range = 40, sequences = []\<rparr>,
            \<lparr>min_range = 40, max_range = 54, sequences = [''>> <X> <Y> 40 4 ^CCCC\<newline>^'', ''s3 1 45 51 2'']\<rparr>]
   \<and> map_reduce_two ''>s0 x\<newline>AC\<newline>>s1 y\<newline>GGGG\<newline>GGGG\<newline>GGGG\<newline>GGGG\<newline>GGGG\<newline>CCCC\<newline>>s3 z\<newline>AC\<newline>'' ''genome.fasta'' 40
     = Inr [\<lparr>min_range = 0, max_range = 40, sequences = [''s0 1 0 6 2'', ''s1 2 9 15 20'']\<rparr>,
            \<lparr>min_range = 40, max_range = 54, sequences = [''s1 2 9 40 4'', ''s3 1 45 51 2'']\<rparr>]"
  using marker_after_empty_record_stays [of "''genome.fasta''"] by simp

text \<open>
  C10. \<^verbatim>\<open>map\<close> is not total. It ends in an IndexError on every text that begins with \<open>>\<close>
  and has no newline followed by \<open>>\<close> (\<^verbatim>\<open>ini_heads[-1]\<close> on the empty list), and on every text
  that has a newline followed by \<open>>\<close> but no match of the header pattern (\<^verbatim>\<open>heads[-1]\<close> on the
  empty list).
\<close>

theorem map_index_error:
  "(data \<noteq> [] \<and> hd data = CHR ''>'' \<and> \<not> contains [NL, CHR ''>''] data
      \<longrightarrow> map_FASTA data worker_id key chunk_size obj_size partitions = Inl IndexError)
   \<and> (contains [NL, CHR ''>''] data \<and> heads_from 0 data = []
      \<longrightarrow> map_FASTA data worker_id key chunk_size obj_size partitions = Inl IndexError)"
proof (intro conjI impI)
  assume a: "data \<noteq> [] \<and> hd data = CHR ''>'' \<and> \<not> contains [NL, CHR ''>''] data"
  then have ini: "ini_heads_from 0 data = []"
    by (simp add: ini_heads_empty_iff)
  show "map_FASTA data worker_id key chunk_size obj_size partitions = Inl IndexError"
  proof (cases "heads_loop (worker_id * chunk_size) worker_id data (True, - 1, []) (heads_from 0 data)")
    case (Inl e)
    then have "e = IndexError" by (rule heads_loop_error)
    with Inl a ini show ?thesis
      by (simp add: map_FASTA_def Let_def then_do_def)
  next
    case (Inr st)
    with a ini show ?thesis
      by (simp add: map_FASTA_def map_finish_def Let_def then_do_def split: prod.splits)
  qed
next
  assume b: "contains [NL, CHR ''>''] data \<and> heads_from 0 data = []"
  then have "ini_heads_from 0 data \<noteq> []"
    by (simp add: ini_heads_empty_iff)
  with b show "map_FASTA data worker_id key chunk_size obj_size partitions = Inl IndexError"
    by (simp add: map_FASTA_def map_finish_def Let_def then_do_def)
qed

theorem map_index_error_witness:
  "map_FASTA ''>s1\<newline>'' 0 ''k'' 4 4 1 = Inl IndexError
   \<and> map_FASTA ''ACGT\<newline>>s'' 1 ''k'' 7 14 2 = Inl IndexError"
  using map_index_error [of "''>s1\<newline>''" 0 "''k''" 4 4 1]
    map_index_error [of "''ACGT\<newline>>s''" 1 "''k''" 7 14 2]
  by simp

end
